theory Spec2Isabelle
  imports Main "HOL-Library.AList"
begin

section \<open>Python values shared by the module\<close>

text \<open>
  The exceptions that the functions of \<open>WordEmbeddings.py\<close> can raise. A failed
  \<open>assert\<close> raises \<open>AssertionError\<close>; \<open>%\<close> by zero raises
  \<open>ZeroDivisionError\<close>; indexing a deque, a list or an array out of range raises
  \<open>IndexError\<close>; a negative array dimension, a negative deque \<open>maxlen\<close> and an
  oversized \<open>random.sample\<close> raise \<open>ValueError\<close>; a value or a size beyond what
  the platform can hold raises \<open>OverflowError\<close>, \<open>ValueError\<close> or \<open>MemoryError\<close>.
\<close>

datatype error =
  AssertionError | ZeroDivisionError | ValueError | IndexError | OverflowError | MemoryError

text \<open>
  A Python \<open>dict\<close> keeps its keys in insertion order: storing under a key that is
  already present replaces the value in place, storing under a new key appends the
  entry. That is \<open>AList.update\<close> on an association list.
\<close>

type_synonym ('k, 'v) dict = "('k \<times> 'v) list"

definition dict_get :: "('k, 'v) dict \<Rightarrow> 'k \<Rightarrow> 'v \<Rightarrow> 'v" where
  "dict_get d k dflt = (case map_of d k of None \<Rightarrow> dflt | Some v \<Rightarrow> v)"

definition dict_of_pairs :: "('k \<times> 'v) list \<Rightarrow> ('k, 'v) dict" where
  "dict_of_pairs ps = foldl (\<lambda>d (k, v). AList.update k v d) [] ps"

section \<open>The vocabulary builder\<close>

text \<open>
  \<open>collections.Counter(words)\<close> runs \<open>c[w] = c.get(w, 0) + 1\<close> over the words, so
  its items stand in the order of first occurrence.
\<close>

definition Counter :: "'a list \<Rightarrow> ('a, nat) dict" where
  "Counter ws = foldl (\<lambda>c w. AList.update w (dict_get c w 0 + 1) c) [] ws"

text \<open>
  \<open>most_common(n)\<close> is \<open>heapq.nlargest(n, items, key = count)\<close>, which the library
  documents as \<open>sorted(items, key = count, reverse = True)[:n]\<close>: a stable sort by
  descending count, cut after \<open>n\<close> items, and the empty list when \<open>n \<le> 0\<close>.
\<close>

definition most_common :: "int \<Rightarrow> ('a, nat) dict \<Rightarrow> ('a \<times> nat) list" where
  "most_common n items =
     (if n \<le> 0 then [] else take (nat n) (sort_key (\<lambda>p. - int (snd p)) items))"

record dataset =
  ds_data :: "int list"
  ds_count :: "(string \<times> int) list"
  ds_dictionary :: "(string, int) dict"
  ds_reversed_dictionary :: "(int, string) dict"

text \<open>The loop \<open>for word, _ in count: dictionary[word] = len(dictionary)\<close>.\<close>

definition assign_ids :: "(string \<times> int) list \<Rightarrow> (string, int) dict" where
  "assign_ids count =
     foldl (\<lambda>dictionary (word, _). AList.update word (int (length dictionary)) dictionary)
       [] count"

text \<open>The loop over \<open>words\<close> that fills \<open>data\<close> and tallies \<open>unk_count\<close>.\<close>

definition encode_words :: "(string, int) dict \<Rightarrow> string list \<Rightarrow> int list \<times> int" where
  "encode_words dictionary words =
     foldl (\<lambda>(data, unk_count) word.
              let index = dict_get dictionary word 0
              in (data @ [index], if index = 0 then unk_count + 1 else unk_count))
       ([], 0) words"

definition build_dataset :: "string list \<Rightarrow> int \<Rightarrow> dataset" where
  "build_dataset words n_words =
     (let count = (''UNK'', - 1) #
                  map (\<lambda>(w, c). (w, int c)) (most_common (n_words - 1) (Counter words));
          dictionary = assign_ids count;
          (data, unk_count) = encode_words dictionary words;
          count = count[0 := (fst (count ! 0), unk_count)];
          reversed_dictionary = dict_of_pairs (zip (map snd dictionary) (map fst dictionary))
      in \<lparr>ds_data = data, ds_count = count, ds_dictionary = dictionary,
          ds_reversed_dictionary = reversed_dictionary\<rparr>)"

section \<open>The platform: numpy, the deque and memory\<close>

text \<open>
  What the libraries do with a value or a size that is too large depends on their version
  and on the machine, so it is a parameter of the model. The exceptions they raise on
  that ground are \<open>OverflowError\<close>, \<open>ValueError\<close> and \<open>MemoryError\<close>.
\<close>

datatype limit_error = TooLargeOverflow | TooLargeValue | TooLargeMemory

fun raised :: "limit_error \<Rightarrow> error" where
  "raised TooLargeOverflow = OverflowError"
| "raised TooLargeValue = ValueError"
| "raised TooLargeMemory = MemoryError"

text \<open>
  \<^item> \<open>store_out_of_range v\<close>: what storing the Python integer \<open>v\<close>, outside the range
    of \<open>int32\<close>, into an array of dtype \<open>int32\<close> does: numpy 1 keeps the low 32 bits
    of an integer that fits a C \<open>long\<close>, numpy 2 raises \<open>OverflowError\<close>;
  \<^item> \<open>ndarray_limit n\<close>: the exception, if any, with which \<open>np.ndarray\<close> refuses a
    dimension \<open>n\<close> for being too large;
  \<^item> \<open>deque_limit n\<close>: the same for \<open>collections.deque(maxlen = n)\<close>;
  \<^item> \<open>list_limit n\<close>: the same for building a list of \<open>n\<close> elements.
\<close>

record platform =
  store_out_of_range :: "int \<Rightarrow> limit_error + int"
  ndarray_limit :: "int \<Rightarrow> limit_error option"
  deque_limit :: "int \<Rightarrow> limit_error option"
  list_limit :: "nat \<Rightarrow> limit_error option"

definition in_int32 :: "int \<Rightarrow> bool" where
  "in_int32 v \<longleftrightarrow> - 2147483648 \<le> v \<and> v < 2147483648"

text \<open>The assignment of a Python integer to an element of an \<open>int32\<close> array.\<close>

definition store_int32 :: "platform \<Rightarrow> int \<Rightarrow> error + int" where
  "store_int32 pf v =
     (if in_int32 v then Inr v
      else case store_out_of_range pf v of Inl e \<Rightarrow> Inl (raised e) | Inr v' \<Rightarrow> Inr v')"

text \<open>
  Two platforms. \<open>numpy1\<close> is numpy 1 with a C \<open>long\<close> of 64 bits: an integer that
  fits the \<open>long\<close> is cut to its low 32 bits, read as a signed number, and a larger one
  raises \<open>OverflowError\<close>. \<open>numpy2\<close> raises \<open>OverflowError\<close> for every integer
  outside \<open>int32\<close>. Both take sizes that fit a signed 64-bit index and have memory
  for \<open>2^32\<close> elements.
\<close>

definition size_limit :: "int \<Rightarrow> limit_error option" where
  "size_limit n =
     (if n < - 9223372036854775808 \<or> 9223372036854775807 < n then Some TooLargeOverflow
      else if 4294967296 < n then Some TooLargeMemory
      else None)"

definition numpy1 :: platform where
  "numpy1 =
     \<lparr>store_out_of_range =
        (\<lambda>v. if - 9223372036854775808 \<le> v \<and> v \<le> 9223372036854775807
             then Inr ((v + 2147483648) mod 4294967296 - 2147483648)
             else Inl TooLargeOverflow),
      ndarray_limit = size_limit,
      deque_limit = size_limit,
      list_limit = (\<lambda>n. size_limit (int n))\<rparr>"

definition numpy2 :: platform where
  "numpy2 =
     \<lparr>store_out_of_range = (\<lambda>v. Inl TooLargeOverflow),
      ndarray_limit = size_limit,
      deque_limit = size_limit,
      list_limit = (\<lambda>n. size_limit (int n))\<rparr>"

section \<open>The random source\<close>

text \<open>
  The state of the process-wide generator of module \<open>random\<close> is the sequence of
  numbers it is still going to produce; drawing one shifts the sequence.
  \<open>random.sample(population, k)\<close> raises \<open>ValueError\<close> unless \<open>0 \<le> k \<le> len(population)\<close>
  and otherwise returns \<open>k\<close> elements chosen without replacement. The choice is modelled as
  \<open>k\<close> draws, each picking one of the elements still available, so that every sequence
  of the generator yields a selection the library could return.
\<close>

type_synonym rng = "nat \<Rightarrow> nat"

fun sample_picks :: "'a list \<Rightarrow> nat \<Rightarrow> rng \<Rightarrow> 'a list \<times> rng" where
  "sample_picks population 0 g = ([], g)"
| "sample_picks population (Suc k) g =
     (let i = g 0 mod length population;
          (rest, g') = sample_picks (take i population @ drop (Suc i) population) k
                         (\<lambda>n. g (Suc n))
      in (population ! i # rest, g'))"

definition random_sample :: "'a list \<Rightarrow> int \<Rightarrow> rng \<Rightarrow> (error + 'a list) \<times> rng" where
  "random_sample population k g =
     (if k < 0 \<or> int (length population) < k then (Inl ValueError, g)
      else case sample_picks population (nat k) g of (ys, g') \<Rightarrow> (Inr ys, g'))"

section \<open>The skip-gram batch generator\<close>

text \<open>
  \<open>collections.deque(maxlen = m)\<close>: \<open>append\<close> adds on the right and, when the deque
  has grown beyond \<open>m\<close>, drops the leftmost element; \<open>extend\<close> appends the items one
  by one.
\<close>

definition deque_append :: "nat \<Rightarrow> 'a list \<Rightarrow> 'a \<Rightarrow> 'a list" where
  "deque_append maxlen d x = (let d' = d @ [x] in if maxlen < length d' then tl d' else d')"

definition deque_extend :: "nat \<Rightarrow> 'a list \<Rightarrow> 'a list \<Rightarrow> 'a list" where
  "deque_extend maxlen d xs = foldl (deque_append maxlen) d xs"

text \<open>
  The local state of one call: the two output arrays, the window and the cursor.
  \<open>labels\<close> has shape \<open>(batch_size, 1)\<close>, a list of rows of one element each. The
  arrays have dtype \<open>int32\<close>: what they hold is what \<open>store_int32\<close> has put there.
\<close>

record window =
  batch :: "int list"
  labels :: "int list list"
  buffer :: "int list"
  data_index :: nat

text \<open>
  The inner loop \<open>for j, context_word in enumerate(words_to_use)\<close>, with
  \<open>base = i * num_skips\<close>. Each of the two assignments reads the deque, which raises
  \<open>IndexError\<close> out of range, and then stores into the array of dtype \<open>int32\<close>.
\<close>

fun emit :: "platform \<Rightarrow> nat \<Rightarrow> nat \<Rightarrow> nat \<Rightarrow> nat list \<Rightarrow> window \<Rightarrow> error + window" where
  "emit pf skip_window base j [] s = Inr s"
| "emit pf skip_window base j (context_word # rest) s =
     (if length (buffer s) \<le> skip_window \<or> length (batch s) \<le> base + j then Inl IndexError
      else case store_int32 pf (buffer s ! skip_window) of
        Inl e \<Rightarrow> Inl e
      | Inr target \<Rightarrow>
          if length (buffer s) \<le> context_word \<or> length (labels s) \<le> base + j
          then Inl IndexError
          else case store_int32 pf (buffer s ! context_word) of
            Inl e \<Rightarrow> Inl e
          | Inr context \<Rightarrow>
              emit pf skip_window base (Suc j) rest
                (s\<lparr>batch := (batch s)[base + j := target],
                   labels := (labels s)[base + j := (labels s ! (base + j))[0 := context]]\<rparr>))"

text \<open>The \<open>if data_index == len(data)\<close> statement that moves the window on.\<close>

definition advance :: "nat \<Rightarrow> int list \<Rightarrow> window \<Rightarrow> error + window" where
  "advance span data s =
     (if data_index s = length data
      then Inr (s\<lparr>buffer := deque_extend span (buffer s) (take span data),
                  data_index := span\<rparr>)
      else if data_index s < length data
      then Inr (s\<lparr>buffer := deque_append span (buffer s) (data ! data_index s),
                  data_index := data_index s + 1\<rparr>)
      else Inl IndexError)"

text \<open>
  The outer loop \<open>for i in range(batch_size // num_skips)\<close>: \<open>context_words\<close> is
  the list comprehension \<open>[w for w in range(span) if w != skip_window]\<close>,
  \<open>group_body\<close> is one iteration; the first argument of \<open>groups\<close> counts the iterations still to run and
  \<open>i\<close> is the loop variable. The body is entered only when
  \<open>batch_size // num_skips\<close> is positive, which for a non-negative \<open>batch_size\<close> makes
  \<open>num_skips\<close> positive, and then the assertion \<open>num_skips <= 2 * skip_window\<close> makes
  \<open>skip_window\<close> positive: inside the loop both are natural numbers.
\<close>

definition context_words :: "nat \<Rightarrow> nat \<Rightarrow> nat list" where
  "context_words span skip_window = filter (\<lambda>w. w \<noteq> skip_window) [0..<span]"

definition group_body :: "platform \<Rightarrow> nat \<Rightarrow> int \<Rightarrow> nat \<Rightarrow> int list \<Rightarrow> window \<Rightarrow> rng
    \<Rightarrow> (error + window) \<times> rng" where
  "group_body pf i num_skips skip_window data s g =
     (let span = 2 * skip_window + 1
      in case list_limit pf (length (context_words span skip_window)) of
           Some e \<Rightarrow> (Inl (raised e), g)
         | None \<Rightarrow>
             (case random_sample (context_words span skip_window) num_skips g of
                (Inl e, g') \<Rightarrow> (Inl e, g')
              | (Inr words_to_use, g') \<Rightarrow>
                  (case emit pf skip_window (i * nat num_skips) 0 words_to_use s of
                     Inl e \<Rightarrow> (Inl e, g')
                   | Inr s' \<Rightarrow> (advance span data s', g'))))"

fun groups :: "platform \<Rightarrow> nat \<Rightarrow> nat \<Rightarrow> int \<Rightarrow> nat \<Rightarrow> int list \<Rightarrow> window \<Rightarrow> rng
    \<Rightarrow> (error + window) \<times> rng" where
  "groups pf 0 i num_skips skip_window data s g = (Inr s, g)"
| "groups pf (Suc n) i num_skips skip_window data s g =
     (case group_body pf i num_skips skip_window data s g of
        (Inl e, g') \<Rightarrow> (Inl e, g')
      | (Inr s', g') \<Rightarrow> groups pf n (Suc i) num_skips skip_window data s' g')"

text \<open>
  \<open>generate_batch\<close>. The arguments \<open>ub\<close> and \<open>ul\<close> are the contents of the memory that
  \<open>np.ndarray\<close> hands out uninitialised. Both arrays have \<open>batch_size\<close> elements, so
  one test of the platform's limit stands for the two constructions. \<open>data_index\<close>
  starts at \<open>0\<close>, so the first \<open>if\<close> assigns the value it already has and the first
  slice is \<open>data[0:span]\<close>. The final assignment to \<open>data_index\<close> is to a local that
  is never read again; only its division by \<open>len(data)\<close> can be observed.
\<close>

definition generate_batch :: "platform \<Rightarrow> rng \<Rightarrow> (nat \<Rightarrow> int) \<Rightarrow> (nat \<Rightarrow> int) \<Rightarrow> int \<Rightarrow> int \<Rightarrow> int
    \<Rightarrow> int list \<Rightarrow> (error + int list \<times> int list list) \<times> rng" where
  "generate_batch pf g ub ul batch_size num_skips skip_window data =
     (if num_skips = 0 then (Inl ZeroDivisionError, g)
      else if batch_size mod num_skips \<noteq> 0 then (Inl AssertionError, g)
      else if \<not> num_skips \<le> 2 * skip_window then (Inl AssertionError, g)
      else case ndarray_limit pf batch_size of
        Some e \<Rightarrow> (Inl (raised e), g)
      | None \<Rightarrow>
          if batch_size < 0 then (Inl ValueError, g)
          else let span = 2 * skip_window + 1 in
            case deque_limit pf span of
              Some e \<Rightarrow> (Inl (raised e), g)
            | None \<Rightarrow>
                if span < 0 then (Inl ValueError, g)
                else
                  let s0 = \<lparr>batch = map ub [0..<nat batch_size],
                            labels = map (\<lambda>k. [ul k]) [0..<nat batch_size],
                            buffer = deque_extend (nat span) [] (take (nat span) data),
                            data_index = nat span\<rparr>
                  in case groups pf (nat (batch_size div num_skips)) 0 num_skips
                            (nat skip_window) data s0 g of
                       (Inl e, g') \<Rightarrow> (Inl e, g')
                     | (Inr s, g') \<Rightarrow>
                         if length data = 0 then (Inl ZeroDivisionError, g')
                         else (Inr (batch s, labels s), g'))"

section \<open>The embedding accessor\<close>

text \<open>
  The module keeps one global, \<open>embed\<close>. The encoder of TensorFlow Hub is outside the
  program: \<open>hub_Module n\<close> is what the \<open>n\<close>-th construction of \<open>hub.Module\<close> yields
  (a handle, or the exception it raises), \<open>encode\<close> is the call of the handle on the
  squeezed string tensor and \<open>output_size\<close> the read of its output shape. The process
  state records the global, the number of constructions so far and the printed lines.
\<close>

record 'h process =
  embed :: "'h option"
  fetches :: nat
  stdout :: "string list"

definition UniversalEmbedding ::
  "(nat \<Rightarrow> 'e + 'h) \<Rightarrow> ('h \<Rightarrow> 'x \<Rightarrow> 'e + 'y) \<Rightarrow> 'x \<Rightarrow> 'h process \<Rightarrow> ('e + 'y) \<times> 'h process" where
  "UniversalEmbedding hub_Module encode x p =
     (case embed p of
        None \<Rightarrow>
          (let p1 = p\<lparr>stdout := stdout p @ [''Getting universal sentence encoder'']\<rparr>;
               p2 = p1\<lparr>fetches := Suc (fetches p1)\<rparr>
           in case hub_Module (fetches p1) of
                Inl e \<Rightarrow> (Inl e, p2)
              | Inr h \<Rightarrow> (encode h x, p2\<lparr>embed := Some h\<rparr>))
      | Some h \<Rightarrow> (encode h x, p))"

definition GetEmbeddingSize ::
  "(nat \<Rightarrow> 'e + 'h) \<Rightarrow> ('h \<Rightarrow> 'e + int) \<Rightarrow> 'h process \<Rightarrow> ('e + int) \<times> 'h process" where
  "GetEmbeddingSize hub_Module output_size p =
     (case embed p of
        None \<Rightarrow>
          (let p1 = p\<lparr>stdout := stdout p @ [''Getting universal sentence encoder'']\<rparr>;
               p2 = p1\<lparr>fetches := Suc (fetches p1)\<rparr>
           in case hub_Module (fetches p1) of
                Inl e \<Rightarrow> (Inl e, p2)
              | Inr h \<Rightarrow> (output_size h, p2\<lparr>embed := Some h\<rparr>))
      | Some h \<Rightarrow> (output_size h, p))"

text \<open>A run of the process: a sequence of calls to the two accessors.\<close>

datatype 'x call = CallUniversalEmbedding 'x | CallGetEmbeddingSize

fun step :: "(nat \<Rightarrow> 'e + 'h) \<Rightarrow> ('h \<Rightarrow> 'x \<Rightarrow> 'e + 'y) \<Rightarrow> ('h \<Rightarrow> 'e + int) \<Rightarrow> 'x call
    \<Rightarrow> 'h process \<Rightarrow> 'h process" where
  "step hub_Module encode output_size (CallUniversalEmbedding x) p =
     snd (UniversalEmbedding hub_Module encode x p)"
| "step hub_Module encode output_size CallGetEmbeddingSize p =
     snd (GetEmbeddingSize hub_Module output_size p)"

definition run :: "(nat \<Rightarrow> 'e + 'h) \<Rightarrow> ('h \<Rightarrow> 'x \<Rightarrow> 'e + 'y) \<Rightarrow> ('h \<Rightarrow> 'e + int) \<Rightarrow> 'x call list
    \<Rightarrow> 'h process \<Rightarrow> 'h process" where
  "run hub_Module encode output_size calls p =
     foldl (\<lambda>q c. step hub_Module encode output_size c q) p calls"

section \<open>The invariant of the batch generator's outer loop\<close>

text \<open>
  Before iteration \<open>i\<close> the window holds the \<open>span\<close> tokens of \<open>data\<close> that start at
  \<open>i mod (len(data) - span + 1)\<close>, the cursor stands right behind them, both arrays
  have \<open>B\<close> rows and every row of \<open>labels\<close> has one element.
\<close>

definition window_inv :: "nat \<Rightarrow> int list \<Rightarrow> nat \<Rightarrow> nat \<Rightarrow> window \<Rightarrow> bool" where
  "window_inv span data B i s \<longleftrightarrow>
     data_index s = i mod (length data - span + 1) + span
     \<and> buffer s = take span (drop (i mod (length data - span + 1)) data)
     \<and> length (batch s) = B \<and> length (labels s) = B
     \<and> (\<forall>r \<in> set (labels s). length r = 1)"

section \<open>Properties of the vocabulary builder\<close>

subsection \<open>The loops of \<open>build_dataset\<close>\<close>

lemma length_update_alist:
  "length (AList.update k v al) = (if k \<in> fst ` set al then length al else Suc (length al))"
  by (induction al) auto

lemma assign_loop_lookup:
  "map_of (foldl (\<lambda>d (word, _). AList.update word (int (length d)) d) d0 ps) k = Some v
   \<Longrightarrow> (k \<notin> fst ` set ps \<and> map_of d0 k = Some v) \<or> (k \<in> fst ` set ps \<and> int (length d0) \<le> v)"
proof (induction ps arbitrary: d0)
  case Nil
  then show ?case by simp
next
  case (Cons p ps)
  obtain w c where p: "p = (w, c)" by (cases p)
  let ?d1 = "AList.update w (int (length d0)) d0"
  from Cons.prems p
  have "map_of (foldl (\<lambda>d (word, _). AList.update word (int (length d)) d) ?d1 ps) k = Some v"
    by simp
  from Cons.IH [OF this]
  show ?case
  proof
    assume a: "k \<notin> fst ` set ps \<and> map_of ?d1 k = Some v"
    show ?thesis
    proof (cases "k = w")
      case True
      with a p show ?thesis by (simp add: update_conv')
    next
      case False
      with a p show ?thesis by (simp add: update_conv')
    qed
  next
    assume a: "k \<in> fst ` set ps \<and> int (length ?d1) \<le> v"
    have "length d0 \<le> length ?d1" by (simp add: length_update_alist)
    with a p show ?thesis by auto
  qed
qed

lemma assign_loop_keys:
  "fst ` set (foldl (\<lambda>d (word, _). AList.update word (int (length d)) d) d0 ps)
     = fst ` set d0 \<union> fst ` set ps"
proof (induction ps arbitrary: d0)
  case Nil
  show ?case by simp
next
  case (Cons p ps)
  obtain w c where p: "p = (w, c)" by (cases p)
  show ?case by (simp add: p Cons.IH dom_update)
qed

lemma assign_loop_distinct:
  "distinct (map fst d0) \<Longrightarrow>
   distinct (map fst (foldl (\<lambda>d (word, _). AList.update word (int (length d)) d) d0 ps))"
proof (induction ps arbitrary: d0)
  case Nil
  then show ?case by simp
next
  case (Cons p ps)
  obtain w c where p: "p = (w, c)" by (cases p)
  show ?case using Cons.prems by (simp add: p Cons.IH distinct_update)
qed

lemma dict_of_pairs_loop:
  "map_of (foldl (\<lambda>d (k, v). AList.update k v d) d0 ps) = map_of d0 ++ map_of (rev ps)"
proof (induction ps arbitrary: d0)
  case Nil
  show ?case by simp
next
  case (Cons p ps)
  obtain k v where p: "p = (k, v)" by (cases p)
  show ?case
    by (simp add: p Cons.IH update_conv' map_add_def fun_eq_iff split: option.splits)
qed

lemma map_of_dict_of_pairs: "map_of (dict_of_pairs ps) = map_of (rev ps)"
  by (simp add: dict_of_pairs_def dict_of_pairs_loop)

lemma ds_dictionary_build:
  "ds_dictionary (build_dataset words n_words) =
     assign_ids ((''UNK'', - 1) #
        map (\<lambda>(w, c). (w, int c)) (most_common (n_words - 1) (Counter words)))"
  by (simp add: build_dataset_def Let_def split_def)

lemma ds_reversed_build:
  "ds_reversed_dictionary (build_dataset words n_words) =
     dict_of_pairs (zip (map snd (ds_dictionary (build_dataset words n_words)))
                        (map fst (ds_dictionary (build_dataset words n_words))))"
  by (simp add: build_dataset_def Let_def split_def)

lemma assign_ids_unk_first:
  "assign_ids ((''UNK'', c) # ps) =
     foldl (\<lambda>d (word, _). AList.update word (int (length d)) d) [(''UNK'', 0)] ps"
  by (simp add: assign_ids_def)

lemma update_new_key:
  "k \<notin> fst ` set al \<Longrightarrow> AList.update k v al = al @ [(k, v)]"
  by (induction al) auto

lemma Counter_loop_keys:
  "fst ` set (foldl (\<lambda>c w. AList.update w (F c w) c) c0 ws) = fst ` set c0 \<union> set ws"
  by (induction ws arbitrary: c0) (auto simp: dom_update)

lemma Counter_loop_distinct:
  "distinct (map fst c0) \<Longrightarrow>
   distinct (map fst (foldl (\<lambda>c w. AList.update w (F c w) c) c0 ws))"
  by (induction ws arbitrary: c0) (simp_all add: distinct_update)

lemma Counter_keys: "fst ` set (Counter ws) = set ws"
  unfolding Counter_def by (simp only: Counter_loop_keys) simp

lemma Counter_distinct: "distinct (map fst (Counter ws))"
  unfolding Counter_def by (rule Counter_loop_distinct) simp

lemma Counter_length: "length (Counter ws) = card (set ws)"
proof -
  have "length (Counter ws) = length (map fst (Counter ws))" by simp
  also have "\<dots> = card (set (map fst (Counter ws)))"
    using Counter_distinct [of ws] by (simp only: distinct_card)
  also have "set (map fst (Counter ws)) = set ws" by (simp add: Counter_keys)
  finally show ?thesis .
qed

lemma most_common_keys:
  "fst ` set (most_common n items) \<subseteq> fst ` set items"
proof (cases "n \<le> 0")
  case True
  then show ?thesis by (simp add: most_common_def)
next
  case False
  have "set (take (nat n) (sort_key (\<lambda>p. - int (snd p)) items)) \<subseteq> set items"
    using set_take_subset [of "nat n" "sort_key (\<lambda>p. - int (snd p)) items"] by simp
  with False show ?thesis by (auto simp: most_common_def)
qed

lemma most_common_distinct:
  assumes "distinct (map fst items)"
  shows "distinct (map fst (most_common n items))"
proof (cases "n \<le> 0")
  case True
  then show ?thesis by (simp add: most_common_def)
next
  case False
  from assms have "distinct items" "inj_on fst (set items)" by (simp_all add: distinct_map)
  then have "distinct (map fst (sort_key (\<lambda>p. - int (snd p)) items))"
    by (simp add: distinct_map)
  then have "distinct (take (nat n) (map fst (sort_key (\<lambda>p. - int (snd p)) items)))"
    by (rule distinct_take)
  with False show ?thesis by (simp add: most_common_def take_map)
qed

lemma most_common_length:
  "length (most_common n items) = min (nat n) (length items)"
  by (simp add: most_common_def min.commute)

lemma assign_loop_new_keys:
  "distinct (map fst ps) \<Longrightarrow> fst ` set ps \<inter> fst ` set d0 = {} \<Longrightarrow>
   foldl (\<lambda>d (word, _). AList.update word (int (length d)) d) d0 ps
     = d0 @ zip (map fst ps) (map (\<lambda>j. int (length d0 + j)) [0..<length ps])"
proof (induction ps arbitrary: d0)
  case Nil
  show ?case by simp
next
  case (Cons p ps)
  obtain w c where p: "p = (w, c)" by (cases p)
  let ?d1 = "d0 @ [(w, int (length d0))]"
  from Cons.prems(2) p have new: "w \<notin> fst ` set d0" by auto
  then have u: "AList.update w (int (length d0)) d0 = ?d1" by (rule update_new_key)
  from Cons.prems p have "distinct (map fst ps)" "fst ` set ps \<inter> fst ` set ?d1 = {}"
    by auto
  from Cons.IH [OF this]
  have IH: "foldl (\<lambda>d (word, _). AList.update word (int (length d)) d) ?d1 ps
      = ?d1 @ zip (map fst ps) (map (\<lambda>j. int (Suc (length d0) + j)) [0..<length ps])"
    by simp
  have "[0..<length (p # ps)] = 0 # map Suc [0..<length ps]"
    by (simp only: length_Cons upt_conv_Cons zero_less_Suc map_Suc_upt)
  then have "zip (map fst (p # ps)) (map (\<lambda>j. int (length d0 + j)) [0..<length (p # ps)])
      = (w, int (length d0)) # zip (map fst ps) (map (\<lambda>j. int (Suc (length d0) + j)) [0..<length ps])"
    by (simp add: p comp_def add_ac)
  with IH show ?case by (simp add: p u)
qed


lemma assign_loop_other:
  "k \<notin> fst ` set ps \<Longrightarrow>
   map_of (foldl (\<lambda>d (word, _). AList.update word (int (length d)) d) d0 ps) k = map_of d0 k"
proof (induction ps arbitrary: d0)
  case Nil
  show ?case by simp
next
  case (Cons p ps)
  obtain w c where p: "p = (w, c)" by (cases p)
  from Cons.prems p have "k \<noteq> w" "k \<notin> fst ` set ps" by auto
  then show ?case by (simp add: p Cons.IH update_conv')
qed

lemma assign_loop_overwrite:
  fixes ps :: "('a \<times> 'b) list"
  assumes "distinct (map fst ps)" "p < length ps" "fst (ps ! p) = u"
  shows "map_of (foldl (\<lambda>d (word, _). AList.update word (int (length d)) d) [(u, 0)] ps) u
           = Some (int p + 1)"
proof -
  let ?f = "\<lambda>d (word :: 'a, _ :: 'b). AList.update word (int (length d)) d"
  let ?pre = "take p ps"
  let ?post = "drop (Suc p) ps"
  from assms(2) have split: "ps = ?pre @ ps ! p # ?post" by (rule id_take_nth_drop)
  from assms(1) have "distinct (map fst (?pre @ ps ! p # ?post))" by (simp only: split [symmetric])
  then have d: "distinct (map fst ?pre)" "u \<notin> fst ` set ?pre" "u \<notin> fst ` set ?post"
    using assms(3) by auto
  from d(2) have "fst ` set ?pre \<inter> fst ` set [(u, 0 :: int)] = {}" by simp
  with d(1) have pre: "foldl ?f [(u, 0)] ?pre
      = [(u, 0)] @ zip (map fst ?pre) (map (\<lambda>j. int (length [(u, 0 :: int)] + j)) [0..<length ?pre])"
    by (rule assign_loop_new_keys)
  have len: "length (foldl ?f [(u, 0)] ?pre) = 1 + p"
    using assms(2) by (simp add: pre)
  obtain c where x: "ps ! p = (u, c)" using assms(3) by (cases "ps ! p") simp
  have "foldl ?f [(u, 0)] ps = foldl ?f (?f (foldl ?f [(u, 0)] ?pre) (ps ! p)) ?post"
    by (subst split) simp
  also have "?f (foldl ?f [(u, 0)] ?pre) (ps ! p)
      = AList.update u (int (1 + p)) (foldl ?f [(u, 0)] ?pre)"
    by (simp add: x len)
  finally have "foldl ?f [(u, 0)] ps
      = foldl ?f (AList.update u (int (1 + p)) (foldl ?f [(u, 0)] ?pre)) ?post" .
  then have "map_of (foldl ?f [(u, 0)] ps) u
      = map_of (AList.update u (int (1 + p)) (foldl ?f [(u, 0)] ?pre)) u"
    using assign_loop_other [OF d(3)] by simp
  then show ?thesis by (simp add: update_conv')
qed

lemma encode_words_loop_unk_only:
  "foldl (\<lambda>(data, unk_count) word.
            let index = dict_get [(''UNK'', 0 :: int)] word 0
            in (data @ [index], if index = 0 then unk_count + 1 else unk_count))
     (acc, n) words
   = (acc @ replicate (length words) 0, n + int (length words))"
proof (induction words arbitrary: acc n)
  case Nil
  show ?case by simp
next
  case (Cons w ws)
  have "dict_get [(''UNK'', 0 :: int)] w 0 = 0" by (simp add: dict_get_def)
  then show ?case by (simp add: Cons.IH replicate_app_Cons_same)
qed

lemma encode_words_unk_only:
  "encode_words [(''UNK'', 0)] words = (replicate (length words) 0, int (length words))"
  unfolding encode_words_def by (simp only: encode_words_loop_unk_only) simp

subsection \<open>The example of the specification\<close>

text \<open>
  C3 (as amended). For \<open>words = ["a","b","a","c","a","b"]\<close> and \<open>n_words = 3\<close>,
  \<open>build_dataset\<close> returns the dictionary \<open>{"UNK": 0, "a": 1, "b": 2}\<close>, and the
  stored frequency of \<open>UNK\<close>, \<open>count[0][1]\<close>, is \<open>1\<close>: the single occurrence of
  \<open>"c"\<close> is the only token that is mapped to id \<open>0\<close>.
\<close>

theorem build_dataset_example:
  "ds_dictionary (build_dataset [''a'', ''b'', ''a'', ''c'', ''a'', ''b''] 3)
     = [(''UNK'', 0), (''a'', 1), (''b'', 2)]
   \<and> snd (ds_count (build_dataset [''a'', ''b'', ''a'', ''c'', ''a'', ''b''] 3) ! 0) = 1"
  by code_simp

text \<open>C3 as stated, with \<open>count[0][1] = 2\<close>, does not hold.\<close>

theorem build_dataset_example_unk_count_not_2:
  "\<not> (ds_dictionary (build_dataset [''a'', ''b'', ''a'', ''c'', ''a'', ''b''] 3)
        = [(''UNK'', 0), (''a'', 1), (''b'', 2)]
      \<and> snd (ds_count (build_dataset [''a'', ''b'', ''a'', ''c'', ''a'', ''b''] 3) ! 0) = 2)"
  by code_simp

subsection \<open>A vocabulary size below one\<close>

text \<open>
  C6 (as amended). \<open>build_dataset\<close> has no check of \<open>n_words\<close> and no path that
  raises. For every \<open>n_words \<le> 1\<close>, so for every \<open>n_words < 1\<close>, the counter
  selects no token and the call returns the dataset of the vocabulary that holds
  \<open>UNK\<close> only: every token is encoded as \<open>0\<close>, \<open>count\<close> is
  \<open>[['UNK', len(words)]]\<close>, \<open>dictionary\<close> is \<open>{'UNK': 0}\<close> and
  \<open>reversed_dictionary\<close> is \<open>{0: 'UNK'}\<close>.
\<close>

theorem build_dataset_n_words_at_most_1:
  assumes "n_words \<le> 1"
  shows "build_dataset words n_words =
     \<lparr>ds_data = replicate (length words) 0,
      ds_count = [(''UNK'', int (length words))],
      ds_dictionary = [(''UNK'', 0)],
      ds_reversed_dictionary = [(0, ''UNK'')]\<rparr>"
  using assms
  by (simp add: build_dataset_def most_common_def assign_ids_def encode_words_unk_only
        dict_of_pairs_def)

theorem build_dataset_n_words_at_most_1_witness:
  "(- 3 :: int) \<le> 1
   \<and> build_dataset [''a'', ''b'', ''a''] (- 3) =
       \<lparr>ds_data = [0, 0, 0], ds_count = [(''UNK'', 3)], ds_dictionary = [(''UNK'', 0)],
        ds_reversed_dictionary = [(0, ''UNK'')]\<rparr>"
  using build_dataset_n_words_at_most_1 [of "- 3" "[''a'', ''b'', ''a'']"] by simp

text \<open>C6 as stated fails at \<open>n_words = 0\<close>: the call returns a dataset.\<close>

theorem build_dataset_n_words_0_returns:
  "build_dataset [''a''] 0 =
     \<lparr>ds_data = [0], ds_count = [(''UNK'', 1)], ds_dictionary = [(''UNK'', 0)],
      ds_reversed_dictionary = [(0, ''UNK'')]\<rparr>"
  by code_simp

subsection \<open>The token \<open>UNK\<close> in the input\<close>

text \<open>
  C10. When the string \<open>"UNK"\<close> occurs in \<open>words\<close> and is among the \<open>n_words - 1\<close>
  most frequent tokens that the counter selects, at position \<open>p\<close> of the selection
  (counted from \<open>0\<close>), the loop that assigns the ids overwrites the initial entry
  \<open>"UNK" -> 0\<close> with \<open>len(dictionary) = p + 1\<close>: the returned dictionary maps
  \<open>"UNK"\<close> to the nonzero id \<open>p + 1\<close>, every id in it is at least \<open>1\<close>, no key is
  mapped to id \<open>0\<close>, and \<open>reversed_dictionary\<close> has no entry for id \<open>0\<close>.
\<close>

theorem unk_overwritten:
  assumes "''UNK'' \<in> set words"
    and "''UNK'' \<in> fst ` set (most_common (n_words - 1) (Counter words))"
  shows "(\<exists>p < length (most_common (n_words - 1) (Counter words)).
            fst (most_common (n_words - 1) (Counter words) ! p) = ''UNK''
            \<and> map_of (ds_dictionary (build_dataset words n_words)) ''UNK'' = Some (int p + 1))
    \<and> (\<forall>k i. map_of (ds_dictionary (build_dataset words n_words)) k = Some i \<longrightarrow> 1 \<le> i)
    \<and> (\<forall>k. map_of (ds_dictionary (build_dataset words n_words)) k \<noteq> Some 0)
    \<and> map_of (ds_reversed_dictionary (build_dataset words n_words)) 0 = None"
proof -
  let ?sel = "most_common (n_words - 1) (Counter words)"
  let ?mc = "map (\<lambda>(w, c). (w, int c)) ?sel"
  let ?D = "ds_dictionary (build_dataset words n_words)"
  have D: "?D = foldl (\<lambda>d (word, _). AList.update word (int (length d)) d) [(''UNK'', 0)] ?mc"
    by (simp add: ds_dictionary_build assign_ids_unk_first)
  have keys: "map fst ?mc = map fst ?sel" by (simp add: split_def comp_def)
  have unk: "''UNK'' \<in> fst ` set ?mc"
    using assms(2) by (force simp: image_iff split_def)
  from assms(2) have "''UNK'' \<in> set (map fst ?sel)" by simp
  then obtain p where p: "p < length ?sel" "map fst ?sel ! p = ''UNK''"
    by (auto simp: in_set_conv_nth)
  then have p': "p < length ?mc" "fst (?mc ! p) = ''UNK''" "fst (?sel ! p) = ''UNK''"
    by (simp_all add: split_def)
  have dk: "distinct (map fst ?mc)"
    unfolding keys using Counter_distinct by (rule most_common_distinct)
  have "map_of ?D ''UNK'' = Some (int p + 1)"
    unfolding D using dk p'(1,2) by (rule assign_loop_overwrite)
  with p(1) p'(3) have one: "\<exists>p < length ?sel. fst (?sel ! p) = ''UNK''
      \<and> map_of ?D ''UNK'' = Some (int p + 1)"
    by blast
  have pos: "1 \<le> v" if "map_of ?D k = Some v" for k v
  proof -
    from that D have "(k \<notin> fst ` set ?mc \<and> map_of [(''UNK'', 0::int)] k = Some v)
        \<or> (k \<in> fst ` set ?mc \<and> int (length [(''UNK'', 0::int)]) \<le> v)"
      using assign_loop_lookup [of "[(''UNK'', 0)]" ?mc k v] by simp
    then show ?thesis using unk by (auto split: if_splits)
  qed
  then have two: "\<forall>k i. map_of ?D k = Some i \<longrightarrow> 1 \<le> i" by blast
  have three: "\<forall>k. map_of ?D k \<noteq> Some 0"
    using pos by fastforce
  have dist: "distinct (map fst ?D)"
    by (simp add: D assign_loop_distinct)
  have zero: "0 \<notin> snd ` set ?D"
  proof
    assume "0 \<in> snd ` set ?D"
    then obtain k where "(k, 0) \<in> set ?D" by auto
    with dist have "map_of ?D k = Some 0" by simp
    with three show False by simp
  qed
  have "0 \<notin> fst ` set (rev (zip (map snd ?D) (map fst ?D)))"
  proof
    assume "0 \<in> fst ` set (rev (zip (map snd ?D) (map fst ?D)))"
    then obtain t where "(0, t) \<in> set (zip (map snd ?D) (map fst ?D))" by auto
    then have "0 \<in> set (map snd ?D)" by (rule set_zip_leftD)
    with zero show False by simp
  qed
  then have four: "map_of (ds_reversed_dictionary (build_dataset words n_words)) 0 = None"
    by (simp add: ds_reversed_build map_of_dict_of_pairs map_of_eq_None_iff del: set_rev)
  from one two three four show ?thesis by blast
qed

theorem unk_overwritten_witness:
  "''UNK'' \<in> set [''a'', ''UNK'', ''a'', ''UNK'', ''b'', ''a'']
   \<and> ''UNK'' \<in> fst ` set (most_common (3 - 1) (Counter [''a'', ''UNK'', ''a'', ''UNK'', ''b'', ''a'']))
   \<and> most_common (3 - 1) (Counter [''a'', ''UNK'', ''a'', ''UNK'', ''b'', ''a''])
       = [(''a'', 3), (''UNK'', 2)]
   \<and> ds_dictionary (build_dataset [''a'', ''UNK'', ''a'', ''UNK'', ''b'', ''a''] 3)
       = [(''UNK'', 2), (''a'', 1)]
   \<and> ds_reversed_dictionary (build_dataset [''a'', ''UNK'', ''a'', ''UNK'', ''b'', ''a''] 3)
       = [(2, ''UNK''), (1, ''a'')]
   \<and> (\<exists>p < length (most_common (3 - 1) (Counter [''a'', ''UNK'', ''a'', ''UNK'', ''b'', ''a''])).
         fst (most_common (3 - 1) (Counter [''a'', ''UNK'', ''a'', ''UNK'', ''b'', ''a'']) ! p) = ''UNK''
         \<and> map_of (ds_dictionary (build_dataset [''a'', ''UNK'', ''a'', ''UNK'', ''b'', ''a''] 3)) ''UNK''
             = Some (int p + 1))
   \<and> map_of (ds_reversed_dictionary (build_dataset [''a'', ''UNK'', ''a'', ''UNK'', ''b'', ''a''] 3)) 0
       = None"
proof -
  let ?ws = "[''a'', ''UNK'', ''a'', ''UNK'', ''b'', ''a'']"
  have h1: "''UNK'' \<in> set ?ws" by simp
  have h2: "''UNK'' \<in> fst ` set (most_common (3 - 1) (Counter ?ws))" by code_simp
  have e1: "most_common (3 - 1) (Counter ?ws) = [(''a'', 3), (''UNK'', 2)]" by code_simp
  have e2: "ds_dictionary (build_dataset ?ws 3) = [(''UNK'', 2), (''a'', 1)]" by code_simp
  have e3: "ds_reversed_dictionary (build_dataset ?ws 3) = [(2, ''UNK''), (1, ''a'')]" by code_simp
  from unk_overwritten [OF h1 h2] h1 h2 e1 e2 e3 show ?thesis by blast
qed

text \<open>
  When \<open>"UNK"\<close> is not among the words, the dictionary is \<open>UNK\<close> with id \<open>0\<close>
  followed by the selected tokens with ids \<open>1, 2, \<dots>\<close>: it has
  \<open>min(n_words, distinct_token_count + 1)\<close> entries for \<open>n_words \<ge> 1\<close>, and
  \<open>reversed_dictionary\<close> maps every id back to its token.
\<close>

lemma build_dataset_dictionary_without_unk:
  assumes "''UNK'' \<notin> set words"
  shows "ds_dictionary (build_dataset words n_words)
      = (''UNK'', 0) # zip (map fst (most_common (n_words - 1) (Counter words)))
                         (map (\<lambda>j. int (1 + j))
                            [0..<length (most_common (n_words - 1) (Counter words))])"
proof -
  let ?mc = "most_common (n_words - 1) (Counter words)"
  let ?ps = "map (\<lambda>(w, c). (w, int c)) ?mc"
  have keys: "map fst ?ps = map fst ?mc" by (simp add: split_def)
  have keys': "fst ` set ?ps = fst ` set ?mc" by (force simp: image_iff split_def)
  have d: "distinct (map fst ?ps)"
    unfolding keys using Counter_distinct by (rule most_common_distinct)
  have "fst ` set ?mc \<subseteq> set words"
    using most_common_keys [of "n_words - 1" "Counter words"] by (simp add: Counter_keys)
  with assms have "''UNK'' \<notin> fst ` set ?mc" by auto
  then have dis: "fst ` set ?ps \<inter> fst ` set [(''UNK'', 0 :: int)] = {}"
    unfolding keys' by simp
  have "ds_dictionary (build_dataset words n_words)
      = foldl (\<lambda>d (word, _). AList.update word (int (length d)) d) [(''UNK'', 0)] ?ps"
    by (simp add: ds_dictionary_build assign_ids_unk_first)
  also have "\<dots> = [(''UNK'', 0)] @ zip (map fst ?ps)
        (map (\<lambda>j. int (length [(''UNK'', 0 :: int)] + j)) [0..<length ?ps])"
    using d dis by (rule assign_loop_new_keys)
  finally show ?thesis by (simp add: comp_def split_def)
qed

lemma build_dataset_size_without_unk:
  assumes "''UNK'' \<notin> set words" "1 \<le> n_words"
  shows "length (ds_dictionary (build_dataset words n_words))
           = min (nat n_words) (card (set words) + 1)"
    and "map_of (ds_dictionary (build_dataset words n_words)) ''UNK'' = Some 0"
    and "distinct (map fst (ds_dictionary (build_dataset words n_words)))"
proof -
  let ?mc = "most_common (n_words - 1) (Counter words)"
  note D = build_dataset_dictionary_without_unk [OF assms(1), of n_words]
  have len: "length ?mc = min (nat (n_words - 1)) (card (set words))"
    by (simp add: most_common_length Counter_length)
  show "length (ds_dictionary (build_dataset words n_words))
           = min (nat n_words) (card (set words) + 1)"
    using assms(2) by (simp add: D len)
  show "map_of (ds_dictionary (build_dataset words n_words)) ''UNK'' = Some 0"
    by (simp add: D)
  have "fst ` set ?mc \<subseteq> set words"
    using most_common_keys [of "n_words - 1" "Counter words"] by (simp add: Counter_keys)
  with assms(1) have "''UNK'' \<notin> fst ` set ?mc" by auto
  moreover have "distinct (map fst ?mc)"
    using Counter_distinct by (rule most_common_distinct)
  ultimately show "distinct (map fst (ds_dictionary (build_dataset words n_words)))"
    by (auto simp: D dest: set_zip_leftD)
qed

lemma zip_snd_fst: "zip (map snd xs) (map fst xs) = map (\<lambda>p. (snd p, fst p)) xs"
  by (induction xs) simp_all

lemma build_dataset_round_trip_without_unk:
  assumes "''UNK'' \<notin> set words"
    and "map_of (ds_dictionary (build_dataset words n_words)) t = Some i"
  shows "map_of (ds_reversed_dictionary (build_dataset words n_words)) i = Some t"
proof -
  let ?D = "ds_dictionary (build_dataset words n_words)"
  let ?mc = "most_common (n_words - 1) (Counter words)"
  note D = build_dataset_dictionary_without_unk [OF assms(1), of n_words]
  have "map snd ?D = 0 # map (\<lambda>j. int (1 + j)) [0..<length ?mc]"
    by (simp add: D)
  then have dv: "distinct (map snd ?D)"
    by (auto simp: distinct_map inj_on_def)
  let ?Z = "zip (map snd ?D) (map fst ?D)"
  have Z: "?Z = map (\<lambda>p. (snd p, fst p)) ?D" by (rule zip_snd_fst)
  from assms(2) have "(t, i) \<in> set ?D" by (rule map_of_SomeD)
  then have "(i, t) \<in> set (rev ?Z)" unfolding Z by force
  moreover have "distinct (map fst (rev ?Z))"
    using dv by (simp add: Z rev_map [symmetric] comp_def)
  ultimately have "map_of (rev ?Z) i = Some t" by (rule map_of_is_SomeI [rotated])
  then show ?thesis by (simp add: ds_reversed_build map_of_dict_of_pairs)
qed

text \<open>
  C2 at \<open>words = ["UNK"]\<close>, \<open>n_words = 2\<close>: the dictionary has one entry, not
  \<open>min(2, 1 + 1) = 2\<close>, and id \<open>0\<close> is not in it. The comment on
  \<open>if index == 0\<close> in the source reads id \<open>0\<close> as \<open>dictionary['UNK']\<close>.
\<close>

theorem build_dataset_unk_token_size:
  "ds_dictionary (build_dataset [''UNK''] 2) = [(''UNK'', 1)]"
  by code_simp

text \<open>
  C5 at \<open>words = ["UNK", "UNK", "a"]\<close>, \<open>n_words = 3\<close>: \<open>"UNK"\<close> and \<open>"a"\<close> both
  get id \<open>1\<close>, and \<open>reversed_dictionary[1]\<close> is \<open>"a"\<close>, so the id of \<open>"UNK"\<close> does not
  map back to it.
\<close>

theorem build_dataset_unk_token_round_trip:
  "map_of (ds_dictionary (build_dataset [''UNK'', ''UNK'', ''a''] 3)) ''UNK'' = Some 1
   \<and> map_of (ds_reversed_dictionary (build_dataset [''UNK'', ''UNK'', ''a''] 3)) 1 = Some ''a''"
  by code_simp

section \<open>Properties of the embedding accessor\<close>

lemma step_keeps_handle:
  "embed p = Some h \<Longrightarrow> step hub_Module encode output_size c p = p"
  by (cases c) (simp_all add: UniversalEmbedding_def GetEmbeddingSize_def)

lemma first_call_sets_handle:
  "embed p = None \<Longrightarrow> hub_Module (fetches p) = Inr h \<Longrightarrow>
   embed (step hub_Module encode output_size c p) = Some h
   \<and> fetches (step hub_Module encode output_size c p) = Suc (fetches p)"
  by (cases c) (simp_all add: UniversalEmbedding_def GetEmbeddingSize_def Let_def)

text \<open>
  C9. Once the global \<open>embed\<close> holds a handle, every later call of
  \<open>UniversalEmbedding\<close> or \<open>GetEmbeddingSize\<close>, in any number and order, leaves the
  process state as it is: the handle is the same, \<open>hub.Module\<close> is not constructed
  again and nothing is printed.
\<close>

theorem embed_never_reassigned:
  assumes "embed p = Some h"
  shows "run hub_Module encode output_size calls p = p"
  unfolding run_def using assms
  by (induction calls) (simp_all add: step_keeps_handle)

theorem embed_never_reassigned_witness:
  "embed (step (\<lambda>n. Inr n :: unit + nat) (\<lambda>h x. Inr (x + h)) (\<lambda>h. Inr 512) CallGetEmbeddingSize
            \<lparr>embed = None, fetches = 0, stdout = []\<rparr>) = Some 0
   \<and> run (\<lambda>n. Inr n :: unit + nat) (\<lambda>h x. Inr (x + h)) (\<lambda>h. Inr 512)
        [CallUniversalEmbedding (5::nat), CallGetEmbeddingSize, CallUniversalEmbedding 7]
        (step (\<lambda>n. Inr n :: unit + nat) (\<lambda>h x. Inr (x + h)) (\<lambda>h. Inr 512) CallGetEmbeddingSize
            \<lparr>embed = None, fetches = 0, stdout = []\<rparr>)
     = \<lparr>embed = Some 0, fetches = 1, stdout = [''Getting universal sentence encoder'']\<rparr>"
proof -
  have h: "embed (step (\<lambda>n. Inr n :: unit + nat) (\<lambda>h x. Inr (x + h)) (\<lambda>h. Inr 512) CallGetEmbeddingSize
            \<lparr>embed = None, fetches = 0, stdout = []\<rparr>) = Some 0"
    by (simp add: GetEmbeddingSize_def)
  from embed_never_reassigned [OF h] h show ?thesis
    by (simp add: GetEmbeddingSize_def)
qed

section \<open>Properties of the batch generator\<close>

subsection \<open>Sampling\<close>

lemma sample_picks_props:
  "k \<le> length population \<Longrightarrow>
   length (fst (sample_picks population k g)) = k
   \<and> set (fst (sample_picks population k g)) \<subseteq> set population"
proof (induction k arbitrary: population g)
  case 0
  show ?case by simp
next
  case (Suc k)
  let ?i = "g 0 mod length population"
  let ?rest = "take ?i population @ drop (Suc ?i) population"
  from Suc.prems have ne: "0 < length population" by (cases population) simp_all
  then have i: "?i < length population" by simp
  then have len: "length ?rest = length population - 1" by simp
  with Suc.prems have "k \<le> length ?rest" by simp
  from Suc.IH [OF this, of "\<lambda>n. g (Suc n)"]
  have IH: "length (fst (sample_picks ?rest k (\<lambda>n. g (Suc n)))) = k"
    "set (fst (sample_picks ?rest k (\<lambda>n. g (Suc n)))) \<subseteq> set ?rest" by simp_all
  have sub: "set ?rest \<subseteq> set population"
    using set_take_subset [of ?i population] set_drop_subset [of "Suc ?i" population] by auto
  have mem: "population ! ?i \<in> set population" using i by simp
  show ?case using IH sub mem by (auto simp: Let_def split_def)
qed

lemma random_sample_ok:
  assumes "0 \<le> k" "k \<le> int (length population)"
  shows "\<exists>ys g'. random_sample population k g = (Inr ys, g') \<and> length ys = nat k
           \<and> set ys \<subseteq> set population"
proof -
  from assms have le: "nat k \<le> length population" by simp
  obtain ys g' where sp: "sample_picks population (nat k) g = (ys, g')"
    by (cases "sample_picks population (nat k) g")
  with sample_picks_props [OF le, of g] have "length ys = nat k" "set ys \<subseteq> set population"
    by simp_all
  with assms sp show ?thesis by (simp add: random_sample_def)
qed

lemma random_sample_error:
  "random_sample population k g = (Inl e, g') \<Longrightarrow> e = ValueError"
  by (auto simp: random_sample_def split: if_splits prod.splits)

text \<open>
  The model of \<open>random.sample\<close> returns selections without repetition, and every
  selection without repetition from a population of distinct elements is returned for
  some state of the generator: quantifying over the generator covers every outcome of
  the sampling.
\<close>

lemma remove_nth_set:
  assumes "distinct xs" "i < length xs"
  shows "set (take i xs @ drop (Suc i) xs) = set xs - {xs ! i}"
    and "distinct (take i xs @ drop (Suc i) xs)"
proof -
  from assms(2) have xs: "xs = take i xs @ xs ! i # drop (Suc i) xs"
    by (rule id_take_nth_drop)
  with assms(1) have d: "distinct (take i xs @ xs ! i # drop (Suc i) xs)" by simp
  then show "distinct (take i xs @ drop (Suc i) xs)" by simp
  from d have "xs ! i \<notin> set (take i xs @ drop (Suc i) xs)" by auto
  moreover have "set xs = insert (xs ! i) (set (take i xs @ drop (Suc i) xs))"
    by (subst xs) simp
  ultimately show "set (take i xs @ drop (Suc i) xs) = set xs - {xs ! i}" by auto
qed

lemma sample_picks_distinct:
  "distinct population \<Longrightarrow> k \<le> length population \<Longrightarrow>
   distinct (fst (sample_picks population k g))"
proof (induction k arbitrary: population g)
  case 0
  show ?case by simp
next
  case (Suc k)
  let ?i = "g 0 mod length population"
  let ?rest = "take ?i population @ drop (Suc ?i) population"
  from Suc.prems(2) have "0 < length population" by (cases population) simp_all
  then have i: "?i < length population" by simp
  then have "length ?rest = length population - 1" by simp
  with Suc.prems(2) have le: "k \<le> length ?rest" by simp
  note rm = remove_nth_set [OF Suc.prems(1) i]
  from Suc.IH [OF rm(2) le, of "\<lambda>n. g (Suc n)"]
  have d: "distinct (fst (sample_picks ?rest k (\<lambda>n. g (Suc n))))" .
  from sample_picks_props [OF le, of "\<lambda>n. g (Suc n)"] rm(1)
  have "population ! ?i \<notin> set (fst (sample_picks ?rest k (\<lambda>n. g (Suc n))))" by auto
  with d show ?case by (simp add: Let_def split_def)
qed

lemma sample_picks_complete:
  "distinct population \<Longrightarrow> distinct ys \<Longrightarrow> set ys \<subseteq> set population \<Longrightarrow>
   \<exists>g. fst (sample_picks population (length ys) g) = ys"
proof (induction ys arbitrary: population)
  case Nil
  show ?case by simp
next
  case (Cons y ys)
  from Cons.prems(3) have "y \<in> set population" by simp
  then obtain i where i: "i < length population" "population ! i = y"
    by (auto simp: in_set_conv_nth)
  let ?rest = "take i population @ drop (Suc i) population"
  note rm = remove_nth_set [OF Cons.prems(1) i(1)]
  from Cons.prems(2,3) i(2) rm(1) have "set ys \<subseteq> set ?rest" by auto
  moreover from Cons.prems(2) have "distinct ys" by simp
  ultimately obtain g where g: "fst (sample_picks ?rest (length ys) g) = ys"
    using Cons.IH [OF rm(2)] by blast
  let ?g = "\<lambda>n. case n of 0 \<Rightarrow> i | Suc n' \<Rightarrow> g n'"
  have "fst (sample_picks population (length (y # ys)) ?g) = y # ys"
    using i g by (simp add: Let_def split_def)
  then show ?case by blast
qed

subsection \<open>The window\<close>

lemma deque_append_length: "length d \<le> m \<Longrightarrow> length (deque_append m d x) \<le> m"
  by (auto simp: deque_append_def Let_def)

lemma deque_extend_drop:
  "length d \<le> m \<Longrightarrow> deque_extend m d xs = drop (length d + length xs - m) (d @ xs)"
proof (induction xs arbitrary: d)
  case Nil
  then show ?case by (simp add: deque_extend_def)
next
  case (Cons x xs)
  have step: "deque_extend m d (x # xs) = deque_extend m (deque_append m d x) xs"
    by (simp add: deque_extend_def)
  note IH = Cons.IH [OF deque_append_length [OF Cons.prems, of x]]
  show ?case
  proof (cases "m < length d + 1")
    case True
    with Cons.prems have eq: "length d = m" by simp
    have da: "deque_append m d x = tl (d @ [x])"
      using True by (simp add: deque_append_def)
    have tl_eq: "tl (d @ [x]) @ xs = drop 1 (d @ x # xs)"
      by (cases d) simp_all
    have len: "length (tl (d @ [x])) = m" using eq by simp
    have "deque_extend m d (x # xs) = drop (length (tl (d @ [x])) + length xs - m) (tl (d @ [x]) @ xs)"
      using IH by (simp only: step da)
    also have "\<dots> = drop (length xs) (drop 1 (d @ x # xs))"
      by (simp only: tl_eq len) simp
    also have "\<dots> = drop (length xs + 1) (d @ x # xs)"
      by (simp only: drop_drop)
    also have "length xs + 1 = length d + length (x # xs) - m"
      using eq by simp
    finally show ?thesis .
  next
    case False
    then have da: "deque_append m d x = d @ [x]"
      by (simp add: deque_append_def)
    show ?thesis using IH by (simp add: step da)
  qed
qed

lemma deque_append_drop:
  "length d \<le> m \<Longrightarrow> deque_append m d x = drop (length d + 1 - m) (d @ [x])"
  using deque_extend_drop [of d m "[x]"] by (simp add: deque_extend_def)


subsection \<open>Stores into the arrays\<close>

lemma store_int32_in_range: "in_int32 v \<Longrightarrow> store_int32 pf v = Inr v"
  by (simp add: store_int32_def)

lemma raised_kinds: "raised e = OverflowError \<or> raised e = ValueError \<or> raised e = MemoryError"
  by (cases e) simp_all

lemma store_int32_error:
  "store_int32 pf v = Inl e \<Longrightarrow> e = OverflowError \<or> e = ValueError \<or> e = MemoryError"
  using raised_kinds by (auto simp: store_int32_def split: if_splits sum.splits)

lemma emit_error:
  "emit pf sw base j cws s = Inl e \<Longrightarrow>
   e = IndexError \<or> e = OverflowError \<or> e = ValueError \<or> e = MemoryError"
proof (induction cws arbitrary: j s)
  case Nil
  then show ?case by simp
next
  case (Cons cw cws)
  then show ?case
    by (auto split: if_splits sum.splits dest: store_int32_error)
qed

lemma emit_error_in_range:
  "\<forall>x \<in> set (buffer s). in_int32 x \<Longrightarrow> emit pf sw base j cws s = Inl e \<Longrightarrow> e = IndexError"
proof (induction cws arbitrary: j s)
  case Nil
  then show ?case by simp
next
  case (Cons cw cws)
  show ?case
  proof (cases "length (buffer s) \<le> sw \<or> length (batch s) \<le> base + j
      \<or> length (buffer s) \<le> cw \<or> length (labels s) \<le> base + j")
    case True
    with Cons.prems show ?thesis
      by (auto split: if_splits sum.splits simp: store_int32_in_range)
  next
    case False
    then have "buffer s ! sw \<in> set (buffer s)" "buffer s ! cw \<in> set (buffer s)" by simp_all
    with Cons.prems(1) have st: "store_int32 pf (buffer s ! sw) = Inr (buffer s ! sw)"
        "store_int32 pf (buffer s ! cw) = Inr (buffer s ! cw)"
      by (simp_all add: store_int32_in_range)
    let ?s1 = "s\<lparr>batch := (batch s)[base + j := buffer s ! sw],
                 labels := (labels s)[base + j := (labels s ! (base + j))[0 := buffer s ! cw]]\<rparr>"
    from Cons.prems(2) False st have "emit pf sw base (Suc j) cws ?s1 = Inl e" by simp
    moreover from Cons.prems(1) have "\<forall>x \<in> set (buffer ?s1). in_int32 x" by simp
    ultimately show ?thesis using Cons.IH by blast
  qed
qed

lemma emit_keeps_cursor:
  "emit pf sw base j cws s = Inr s' \<Longrightarrow> data_index s' = data_index s \<and> buffer s' = buffer s"
proof (induction cws arbitrary: j s)
  case Nil
  then show ?case by simp
next
  case (Cons cw cws)
  then show ?case by (auto split: if_splits sum.splits)
qed

lemma emit_Inr:
  assumes "emit pf sw base j cws s = Inr s'"
    and "\<forall>r \<in> set (labels s). length r = 1"
  shows "length (batch s') = length (batch s) \<and> length (labels s') = length (labels s)
      \<and> (\<forall>r \<in> set (labels s'). length r = 1)
      \<and> (\<forall>k < base + j. batch s' ! k = batch s ! k \<and> labels s' ! k = labels s ! k)
      \<and> (\<forall>t < length cws.
            store_int32 pf (buffer s ! sw) = Inr (batch s' ! (base + j + t))
            \<and> (\<exists>v. store_int32 pf (buffer s ! (cws ! t)) = Inr v
                   \<and> labels s' ! (base + j + t) = [v]))"
  using assms
proof (induction cws arbitrary: j s)
  case Nil
  then show ?case by simp
next
  case (Cons cw cws)
  let ?k = "base + j"
  from Cons.prems(1) have k: "?k < length (batch s)" "?k < length (labels s)"
    by (auto split: if_splits sum.splits)
  from Cons.prems(1) obtain target ctx where st:
      "store_int32 pf (buffer s ! sw) = Inr target"
      "store_int32 pf (buffer s ! cw) = Inr ctx"
    by (auto split: if_splits sum.splits)
  let ?s1 = "s\<lparr>batch := (batch s)[?k := target],
               labels := (labels s)[?k := (labels s ! ?k)[0 := ctx]]\<rparr>"
  from Cons.prems(1) st have e: "emit pf sw base (Suc j) cws ?s1 = Inr s'"
    by (auto split: if_splits)
  have row: "length (labels s ! ?k) = 1"
    using Cons.prems(2) k(2) by simp
  then have row1: "(labels s ! ?k)[0 := ctx] = [ctx]"
    by (cases "labels s ! ?k") simp_all
  have rows1: "\<forall>r \<in> set (labels ?s1). length r = 1"
  proof
    fix r assume "r \<in> set (labels ?s1)"
    then have "r \<in> insert ((labels s ! ?k)[0 := ctx]) (set (labels s))"
      using set_update_subset_insert [of "labels s" ?k] by auto
    then show "length r = 1" using row Cons.prems(2) by auto
  qed
  from Cons.IH [OF e rows1]
  have IH: "length (batch s') = length (batch ?s1)" "length (labels s') = length (labels ?s1)"
      "\<forall>r \<in> set (labels s'). length r = 1"
      "\<forall>k < base + Suc j. batch s' ! k = batch ?s1 ! k \<and> labels s' ! k = labels ?s1 ! k"
      "\<forall>t < length cws.
            store_int32 pf (buffer ?s1 ! sw) = Inr (batch s' ! (base + Suc j + t))
            \<and> (\<exists>v. store_int32 pf (buffer ?s1 ! (cws ! t)) = Inr v
                   \<and> labels s' ! (base + Suc j + t) = [v])"
    by blast+
  have before: "\<forall>k < base + j. batch s' ! k = batch s ! k \<and> labels s' ! k = labels s ! k"
  proof (intro allI impI)
    fix k assume "k < base + j"
    then have "k < base + Suc j" "k \<noteq> ?k" by simp_all
    with IH(4) show "batch s' ! k = batch s ! k \<and> labels s' ! k = labels s ! k" by simp
  qed
  have here: "\<forall>t < length (cw # cws).
            store_int32 pf (buffer s ! sw) = Inr (batch s' ! (base + j + t))
            \<and> (\<exists>v. store_int32 pf (buffer s ! ((cw # cws) ! t)) = Inr v
                   \<and> labels s' ! (base + j + t) = [v])"
  proof (intro allI impI)
    fix t assume t: "t < length (cw # cws)"
    show "store_int32 pf (buffer s ! sw) = Inr (batch s' ! (base + j + t))
            \<and> (\<exists>v. store_int32 pf (buffer s ! ((cw # cws) ! t)) = Inr v
                   \<and> labels s' ! (base + j + t) = [v])"
    proof (cases t)
      case 0
      have "?k < base + Suc j" by simp
      with IH(4) have "batch s' ! ?k = batch ?s1 ! ?k \<and> labels s' ! ?k = labels ?s1 ! ?k"
        by blast
      with k row1 0 st show ?thesis by simp
    next
      case (Suc t')
      with t have "t' < length cws" by simp
      with IH(5) have "store_int32 pf (buffer ?s1 ! sw) = Inr (batch s' ! (base + Suc j + t'))
            \<and> (\<exists>v. store_int32 pf (buffer ?s1 ! (cws ! t')) = Inr v
                   \<and> labels s' ! (base + Suc j + t') = [v])" by blast
      with Suc show ?thesis by simp
    qed
  qed
  from IH(1,2,3) before here show ?case by simp
qed

lemma emit_total:
  assumes "sw < length (buffer s)" "\<forall>cw \<in> set cws. cw < length (buffer s)"
    and "base + j + length cws \<le> length (batch s)" "length (labels s) = length (batch s)"
    and "\<forall>x \<in> set (buffer s). in_int32 x"
  shows "\<exists>s'. emit pf sw base j cws s = Inr s'"
proof (cases "emit pf sw base j cws s")
  case (Inl e)
  with assms(5) have "e = IndexError" by (rule emit_error_in_range)
  with Inl have "emit pf sw base j cws s = Inl IndexError" by simp
  with assms(1-4) have False
  proof (induction cws arbitrary: j s)
    case Nil
    then show ?case by simp
  next
    case (Cons cw cws)
    let ?k = "base + j"
    from Cons.prems have c: "sw < length (buffer s)" "cw < length (buffer s)"
        "?k < length (batch s)" "?k < length (labels s)"
      by simp_all
    show ?case
    proof (cases "store_int32 pf (buffer s ! sw)")
      case (Inl e1)
      with Cons.prems(5) c have "e1 = IndexError" by simp
      with Inl show False using store_int32_error by blast
    next
      case t: (Inr target)
      show False
      proof (cases "store_int32 pf (buffer s ! cw)")
        case (Inl e1)
        with Cons.prems(5) c t have "e1 = IndexError" by simp
        with Inl show False using store_int32_error by blast
      next
        case (Inr ctx)
        let ?s1 = "s\<lparr>batch := (batch s)[?k := target],
               labels := (labels s)[?k := (labels s ! ?k)[0 := ctx]]\<rparr>"
        from Cons.prems(5) c t Inr have "emit pf sw base (Suc j) cws ?s1 = Inl IndexError"
          by simp
        moreover have "sw < length (buffer ?s1)" "\<forall>cw \<in> set cws. cw < length (buffer ?s1)"
            "base + Suc j + length cws \<le> length (batch ?s1)"
            "length (labels ?s1) = length (batch ?s1)"
          using Cons.prems(1-4) by simp_all
        ultimately show False using Cons.IH by blast
      qed
    qed
  qed
  then show ?thesis ..
next
  case (Inr s')
  then show ?thesis by blast
qed

lemma advance_error: "advance span data s = Inl e \<Longrightarrow> e = IndexError"
  by (auto simp: advance_def split: if_splits)

lemma window_slide:
  assumes "t + span < length data"
  shows "deque_append span (take span (drop t data)) (data ! (t + span))
           = take span (drop (Suc t) data)"
proof -
  have len: "length (take span (drop t data)) = span" using assms by simp
  have "take span (drop t data) @ [data ! (t + span)] = take (Suc span) (drop t data)"
    using assms by (simp add: take_Suc_conv_app_nth)
  then have "deque_append span (take span (drop t data)) (data ! (t + span))
      = drop 1 (take (Suc span) (drop t data))"
    using deque_append_drop [of "take span (drop t data)" span "data ! (t + span)"] len by simp
  also have "\<dots> = take span (drop (Suc t) data)"
    by (simp add: drop_take)
  finally show ?thesis .
qed

lemma window_refill:
  assumes "length d \<le> span" "span \<le> length data"
  shows "deque_extend span d (take span data) = take span data"
proof -
  have "deque_extend span d (take span data)
      = drop (length d + length (take span data) - span) (d @ take span data)"
    using assms(1) by (rule deque_extend_drop)
  also have "length d + length (take span data) - span = length d" using assms(2) by simp
  finally show ?thesis by simp
qed

lemma advance_ok:
  assumes "span \<le> length data"
    and "data_index s = i mod (length data - span + 1) + span"
    and "buffer s = take span (drop (i mod (length data - span + 1)) data)"
  shows "\<exists>s'. advance span data s = Inr s'
      \<and> data_index s' = Suc i mod (length data - span + 1) + span
      \<and> buffer s' = take span (drop (Suc i mod (length data - span + 1)) data)
      \<and> batch s' = batch s \<and> labels s' = labels s"
proof -
  let ?m = "length data - span + 1"
  let ?t = "i mod ?m"
  have t: "?t < ?m" by simp
  show ?thesis
  proof (cases "?t + span = length data")
    case True
    then have "Suc ?t = ?m" using assms(1) by simp
    then have nxt: "Suc i mod ?m = 0" by (metis mod_Suc mod_self)
    have "length (buffer s) \<le> span" by (simp add: assms(3))
    then have "deque_extend span (buffer s) (take span data) = take span data"
      using assms(1) by (rule window_refill)
    with True nxt assms(2) show ?thesis by (simp add: advance_def)
  next
    case False
    have "?t \<le> length data - span" using t by (simp only: less_Suc_eq_le Suc_eq_plus1 [symmetric])
    with False assms(1) have lt: "?t + span < length data" by linarith
    then have "Suc ?t < ?m" by simp
    then have nxt: "Suc i mod ?m = Suc ?t" by (simp add: mod_Suc)
    from lt have "deque_append span (buffer s) (data ! data_index s)
        = take span (drop (Suc ?t) data)"
      unfolding assms(2,3) by (rule window_slide)
    with False lt nxt assms(2) show ?thesis by (simp add: advance_def)
  qed
qed

lemma context_words_set:
  "set (context_words (2 * sw + 1) sw) = {w. w < 2 * sw + 1 \<and> w \<noteq> sw}"
  by (auto simp: context_words_def)

lemma context_words_length:
  "length (context_words (2 * sw + 1) sw) = 2 * sw"
proof -
  have "[0..<2 * sw + 1] = [0..<sw] @ sw # [Suc sw..<2 * sw + 1]"
    by (metis add.commute add_Suc_right le_add1 less_add_Suc1 mult_2 upt_add_eq_append upt_conv_Cons zero_le plus_1_eq_Suc)
  then have "filter (\<lambda>w. w \<noteq> sw) [0..<2 * sw + 1] = [0..<sw] @ [Suc sw..<2 * sw + 1]"
    by simp
  then show ?thesis by (simp add: context_words_def)
qed

lemma context_words_length_Suc: "length (context_words (Suc (2 * sw)) sw) = 2 * sw"
  using context_words_length [of sw] by simp

lemma context_words_set_Suc:
  "set (context_words (Suc (2 * sw)) sw) = {w. w < Suc (2 * sw) \<and> w \<noteq> sw}"
  using context_words_set [of sw] by simp

lemma window_start_bound:
  "span \<le> length data \<Longrightarrow> i mod (length data - span + 1) + span \<le> length data"
proof -
  assume a: "span \<le> length data"
  have "i mod (length data - span + 1) < length data - span + 1" by simp
  then have "i mod (length data - span + 1) \<le> length data - span"
    by (simp only: less_Suc_eq_le Suc_eq_plus1 [symmetric])
  with a show ?thesis by linarith
qed

lemma window_inv_buffer_length:
  assumes "span \<le> length data" "window_inv span data B i s"
  shows "length (buffer s) = span"
  using window_start_bound [OF assms(1), of i] assms(2) by (simp add: window_inv_def)

lemma window_inv_buffer_nth:
  assumes "span \<le> length data" "window_inv span data B i s" "p < span"
  shows "buffer s ! p = data ! (i mod (length data - span + 1) + p)"
  using window_start_bound [OF assms(1), of i] assms(2,3) by (simp add: window_inv_def)


lemma random_sample_Inr:
  assumes "random_sample population k g = (Inr ys, g')"
  shows "length ys = nat k" "set ys \<subseteq> set population"
proof -
  from assms have k: "0 \<le> k" "k \<le> int (length population)"
    and sp: "sample_picks population (nat k) g = (ys, g')"
    by (auto simp: random_sample_def split: if_splits prod.splits)
  from k have le: "nat k \<le> length population" by simp
  from sample_picks_props [OF le, of g] sp
  show "length ys = nat k" "set ys \<subseteq> set population" by simp_all
qed

subsection \<open>One iteration of the outer loop\<close>

lemma group_body_cases:
  assumes "group_body pf i num_skips sw data s g = (Inr s', g')"
  obtains ys s1 where "list_limit pf (length (context_words (2 * sw + 1) sw)) = None"
    and "random_sample (context_words (2 * sw + 1) sw) num_skips g = (Inr ys, g')"
    and "emit pf sw (i * nat num_skips) 0 ys s = Inr s1"
    and "advance (2 * sw + 1) data s1 = Inr s'"
  using assms unfolding group_body_def Let_def
  by (auto split: option.splits prod.splits sum.splits)

lemma group_body_Inr:
  assumes span: "span = 2 * sw + 1" "span \<le> length data"
    and inv: "window_inv span data B i s"
    and run: "group_body pf i num_skips sw data s g = (Inr s', g')"
  shows "window_inv span data B (Suc i) s'
      \<and> (\<forall>k < i * nat num_skips. batch s' ! k = batch s ! k \<and> labels s' ! k = labels s ! k)
      \<and> (\<forall>j < nat num_skips.
            store_int32 pf (data ! (i mod (length data - span + 1) + sw))
              = Inr (batch s' ! (i * nat num_skips + j))
            \<and> (\<exists>p < span. p \<noteq> sw \<and>
                 (\<exists>v. store_int32 pf (data ! (i mod (length data - span + 1) + p)) = Inr v
                      \<and> labels s' ! (i * nat num_skips + j) = [v])))"
proof -
  let ?t = "i mod (length data - span + 1)"
  let ?base = "i * nat num_skips"
  from run obtain ys s1 where
      ys: "random_sample (context_words (2 * sw + 1) sw) num_skips g = (Inr ys, g')"
    and s1: "emit pf sw ?base 0 ys s = Inr s1"
    and adv: "advance (2 * sw + 1) data s1 = Inr s'"
    by (rule group_body_cases)
  from random_sample_Inr [OF ys]
  have ys_len: "length ys = nat num_skips"
    and ys_range: "\<forall>cw \<in> set ys. cw < span \<and> cw \<noteq> sw"
    unfolding span(1) context_words_set by auto
  from inv have lens: "length (batch s) = B" "length (labels s) = B"
      "\<forall>r \<in> set (labels s). length r = 1"
    by (simp_all add: window_inv_def)
  from emit_Inr [OF s1 lens(3)]
  have e: "length (batch s1) = B" "length (labels s1) = B"
      "\<forall>r \<in> set (labels s1). length r = 1"
      "\<forall>k < ?base. batch s1 ! k = batch s ! k \<and> labels s1 ! k = labels s ! k"
      "\<forall>t < nat num_skips.
            store_int32 pf (buffer s ! sw) = Inr (batch s1 ! (?base + t))
            \<and> (\<exists>v. store_int32 pf (buffer s ! (ys ! t)) = Inr v
                   \<and> labels s1 ! (?base + t) = [v])"
    using lens ys_len by simp_all
  from emit_keeps_cursor [OF s1] inv
  have cur: "data_index s1 = ?t + span" "buffer s1 = take span (drop ?t data)"
    by (simp_all add: window_inv_def)
  from advance_ok [OF span(2) cur] adv
  have s2: "data_index s' = Suc i mod (length data - span + 1) + span"
      "buffer s' = take span (drop (Suc i mod (length data - span + 1)) data)"
      "batch s' = batch s1" "labels s' = labels s1"
    unfolding span(1) by auto
  have inv2: "window_inv span data B (Suc i) s'"
    using s2 e(1,2,3) by (simp add: window_inv_def)
  have keep: "\<forall>k < ?base. batch s' ! k = batch s ! k \<and> labels s' ! k = labels s ! k"
    using e(4) s2(3,4) by simp
  have new: "\<forall>j < nat num_skips.
            store_int32 pf (data ! (?t + sw)) = Inr (batch s' ! (?base + j))
            \<and> (\<exists>p < span. p \<noteq> sw \<and>
                 (\<exists>v. store_int32 pf (data ! (?t + p)) = Inr v \<and> labels s' ! (?base + j) = [v]))"
  proof (intro allI impI)
    fix j assume j: "j < nat num_skips"
    with ys_len have "ys ! j \<in> set ys" by simp
    with ys_range have p: "ys ! j < span" "ys ! j \<noteq> sw" by simp_all
    have sw: "sw < span" using span(1) by simp
    from e(5) j obtain v where v: "store_int32 pf (buffer s ! sw) = Inr (batch s1 ! (?base + j))"
        "store_int32 pf (buffer s ! (ys ! j)) = Inr v" "labels s1 ! (?base + j) = [v]"
      by blast
    have b: "buffer s ! sw = data ! (?t + sw)" "buffer s ! (ys ! j) = data ! (?t + ys ! j)"
      using window_inv_buffer_nth [OF span(2) inv] p(1) sw by simp_all
    from v b s2(3,4) have "store_int32 pf (data ! (?t + sw)) = Inr (batch s' ! (?base + j))"
        "store_int32 pf (data ! (?t + ys ! j)) = Inr v" "labels s' ! (?base + j) = [v]"
      by simp_all
    with p show "store_int32 pf (data ! (?t + sw)) = Inr (batch s' ! (?base + j))
            \<and> (\<exists>p < span. p \<noteq> sw \<and>
                 (\<exists>v. store_int32 pf (data ! (?t + p)) = Inr v \<and> labels s' ! (?base + j) = [v]))"
      by blast
  qed
  from inv2 keep new show ?thesis by blast
qed

lemma group_body_total:
  assumes ns: "0 < num_skips" "num_skips \<le> 2 * int sw"
    and span: "span = 2 * sw + 1" "span \<le> length data"
    and inv: "window_inv span data B i s"
    and room: "Suc i * nat num_skips \<le> B"
    and range: "\<forall>x \<in> set data. in_int32 x"
    and mem: "list_limit pf (2 * sw) = None"
  shows "\<exists>s' g'. group_body pf i num_skips sw data s g = (Inr s', g')"
proof -
  let ?cw = "context_words (2 * sw + 1) sw"
  let ?t = "i mod (length data - span + 1)"
  let ?base = "i * nat num_skips"
  have "num_skips \<le> int (length ?cw)" using ns(2) by (simp only: context_words_length)
  with ns(1) obtain ys g' where ys: "random_sample ?cw num_skips g = (Inr ys, g')"
      "length ys = nat num_skips" "set ys \<subseteq> set ?cw"
    using random_sample_ok [of num_skips ?cw g] by auto
  from ys(3) have ys_range: "\<forall>cw \<in> set ys. cw < span \<and> cw \<noteq> sw"
    unfolding context_words_set span(1) by auto
  have blen: "length (buffer s) = span"
    using span(2) inv by (rule window_inv_buffer_length)
  from inv have lens: "length (batch s) = B" "length (labels s) = B"
    by (simp_all add: window_inv_def)
  from inv have "buffer s = take span (drop ?t data)" by (simp add: window_inv_def)
  then have "set (buffer s) \<subseteq> set data"
    using set_take_subset [of span "drop ?t data"] set_drop_subset [of ?t data] by auto
  with range have brange: "\<forall>x \<in> set (buffer s). in_int32 x" by auto
  have "\<exists>s1. emit pf sw ?base 0 ys s = Inr s1"
  proof (rule emit_total)
    show "sw < length (buffer s)" using blen span(1) by simp
    show "\<forall>cw \<in> set ys. cw < length (buffer s)" using ys_range blen by simp
    show "?base + 0 + length ys \<le> length (batch s)" using room ys(2) lens(1) by simp
    show "length (labels s) = length (batch s)" using lens by simp
    show "\<forall>x \<in> set (buffer s). in_int32 x" by (rule brange)
  qed
  then obtain s1 where s1: "emit pf sw ?base 0 ys s = Inr s1" ..
  from emit_keeps_cursor [OF s1] inv
  have cur: "data_index s1 = ?t + span" "buffer s1 = take span (drop ?t data)"
    by (simp_all add: window_inv_def)
  from advance_ok [OF span(2) cur]
  obtain s2 where s2: "advance span data s1 = Inr s2" by blast
  have "group_body pf i num_skips sw data s g = (Inr s2, g')"
    using ys(1) s1 s2 span(1) mem by (simp add: group_body_def context_words_length_Suc)
  then show ?thesis by blast
qed

lemma group_body_error:
  assumes "group_body pf i num_skips sw data s g = (Inl e, g')"
  shows "e \<noteq> AssertionError"
proof -
  have r: "raised le \<noteq> AssertionError" for le by (cases le) simp_all
  from assms r show ?thesis
    unfolding group_body_def Let_def
    by (auto split: option.splits prod.splits sum.splits
          dest!: random_sample_error emit_error advance_error)
qed

lemma group_body_short_data_fails:
  assumes "length data < data_index s"
  shows "\<exists>e g'. group_body pf i num_skips sw data s g = (Inl e, g')"
proof (cases "group_body pf i num_skips sw data s g")
  case (Pair r g')
  show ?thesis
  proof (cases r)
    case (Inl e)
    with Pair show ?thesis by blast
  next
    case (Inr s')
    with Pair obtain ys s1 where s1: "emit pf sw (i * nat num_skips) 0 ys s = Inr s1"
      and adv: "advance (2 * sw + 1) data s1 = Inr s'"
      by (auto elim: group_body_cases)
    from emit_keeps_cursor [OF s1] assms have "length data < data_index s1" by simp
    then have "advance (2 * sw + 1) data s1 = Inl IndexError" by (simp add: advance_def)
    with adv show ?thesis by simp
  qed
qed

lemma group_body_short_data:
  assumes "0 < num_skips" "num_skips \<le> 2 * int sw" "length data < data_index s"
    and "\<forall>x \<in> set (buffer s). in_int32 x" "list_limit pf (2 * sw) = None"
  shows "\<exists>g'. group_body pf i num_skips sw data s g = (Inl IndexError, g')"
proof -
  let ?cw = "context_words (2 * sw + 1) sw"
  have "num_skips \<le> int (length ?cw)" using assms(2) by (simp only: context_words_length)
  with assms(1) obtain ys g' where ys: "random_sample ?cw num_skips g = (Inr ys, g')"
    using random_sample_ok [of num_skips ?cw g] by auto
  show ?thesis
  proof (cases "emit pf sw (i * nat num_skips) 0 ys s")
    case (Inl e)
    with assms(4) have "e = IndexError" by (rule emit_error_in_range)
    with Inl ys assms(5) show ?thesis by (simp add: group_body_def context_words_length_Suc)
  next
    case (Inr s1)
    then have "data_index s1 = data_index s" using emit_keeps_cursor by blast
    with assms(3) have "advance (2 * sw + 1) data s1 = Inl IndexError"
      by (simp add: advance_def)
    with Inr ys assms(5) show ?thesis by (simp add: group_body_def context_words_length_Suc)
  qed
qed

subsection \<open>The outer loop\<close>

lemma groups_Inr:
  assumes span: "span = 2 * sw + 1" "span \<le> length data"
    and inv: "window_inv span data B i s"
    and run: "groups pf n i num_skips sw data s g = (Inr s', g')"
  shows "window_inv span data B (i + n) s'
      \<and> (\<forall>k < i * nat num_skips. batch s' ! k = batch s ! k \<and> labels s' ! k = labels s ! k)
      \<and> (\<forall>i' j. i \<le> i' \<and> i' < i + n \<and> j < nat num_skips \<longrightarrow>
            store_int32 pf (data ! (i' mod (length data - span + 1) + sw))
              = Inr (batch s' ! (i' * nat num_skips + j))
            \<and> (\<exists>p < span. p \<noteq> sw \<and>
                 (\<exists>v. store_int32 pf (data ! (i' mod (length data - span + 1) + p)) = Inr v
                      \<and> labels s' ! (i' * nat num_skips + j) = [v])))"
  using inv run
proof (induction n arbitrary: i s g)
  case 0
  then show ?case by simp
next
  case (Suc n)
  let ?ns = "nat num_skips"
  let ?m = "length data - span + 1"
  from Suc.prems(2) obtain s1 g1 where
      b: "group_body pf i num_skips sw data s g = (Inr s1, g1)"
    and r: "groups pf n (Suc i) num_skips sw data s1 g1 = (Inr s', g')"
    by (auto split: prod.splits sum.splits)
  from group_body_Inr [OF span Suc.prems(1) b]
  have b1: "window_inv span data B (Suc i) s1"
      "\<forall>k < i * ?ns. batch s1 ! k = batch s ! k \<and> labels s1 ! k = labels s ! k"
      "\<forall>j < ?ns. store_int32 pf (data ! (i mod ?m + sw)) = Inr (batch s1 ! (i * ?ns + j))
            \<and> (\<exists>p < span. p \<noteq> sw \<and>
                 (\<exists>v. store_int32 pf (data ! (i mod ?m + p)) = Inr v
                      \<and> labels s1 ! (i * ?ns + j) = [v]))"
    by blast+
  from Suc.IH [OF b1(1) r]
  have r1: "window_inv span data B (Suc i + n) s'"
      "\<forall>k < Suc i * ?ns. batch s' ! k = batch s1 ! k \<and> labels s' ! k = labels s1 ! k"
      "\<forall>i' j. Suc i \<le> i' \<and> i' < Suc i + n \<and> j < ?ns \<longrightarrow>
            store_int32 pf (data ! (i' mod ?m + sw)) = Inr (batch s' ! (i' * ?ns + j))
            \<and> (\<exists>p < span. p \<noteq> sw \<and>
                 (\<exists>v. store_int32 pf (data ! (i' mod ?m + p)) = Inr v
                      \<and> labels s' ! (i' * ?ns + j) = [v]))"
    by blast+
  have inv': "window_inv span data B (i + Suc n) s'" using r1(1) by simp
  have keep: "\<forall>k < i * ?ns. batch s' ! k = batch s ! k \<and> labels s' ! k = labels s ! k"
  proof (intro allI impI)
    fix k assume k: "k < i * ?ns"
    then have "k < Suc i * ?ns" by simp
    with r1(2) b1(2) k show "batch s' ! k = batch s ! k \<and> labels s' ! k = labels s ! k" by simp
  qed
  have new: "\<forall>i' j. i \<le> i' \<and> i' < i + Suc n \<and> j < ?ns \<longrightarrow>
            store_int32 pf (data ! (i' mod ?m + sw)) = Inr (batch s' ! (i' * ?ns + j))
            \<and> (\<exists>p < span. p \<noteq> sw \<and>
                 (\<exists>v. store_int32 pf (data ! (i' mod ?m + p)) = Inr v
                      \<and> labels s' ! (i' * ?ns + j) = [v]))"
  proof (intro allI impI)
    fix i' j assume a: "i \<le> i' \<and> i' < i + Suc n \<and> j < ?ns"
    show "store_int32 pf (data ! (i' mod ?m + sw)) = Inr (batch s' ! (i' * ?ns + j))
            \<and> (\<exists>p < span. p \<noteq> sw \<and>
                 (\<exists>v. store_int32 pf (data ! (i' mod ?m + p)) = Inr v
                      \<and> labels s' ! (i' * ?ns + j) = [v]))"
    proof (cases "i' = i")
      case True
      from a have "i * ?ns + j < Suc i * ?ns" by simp
      with r1(2) have "batch s' ! (i * ?ns + j) = batch s1 ! (i * ?ns + j)"
          "labels s' ! (i * ?ns + j) = labels s1 ! (i * ?ns + j)" by simp_all
      with b1(3) a True show ?thesis by simp
    next
      case False
      with a have "Suc i \<le> i' \<and> i' < Suc i + n \<and> j < ?ns" by simp
      with r1(3) show ?thesis by blast
    qed
  qed
  from inv' keep new show ?case by blast
qed

lemma groups_total:
  assumes ns: "0 < num_skips" "num_skips \<le> 2 * int sw"
    and span: "span = 2 * sw + 1" "span \<le> length data"
    and range: "\<forall>x \<in> set data. in_int32 x"
    and mem: "list_limit pf (2 * sw) = None"
    and inv: "window_inv span data B i s"
    and room: "(i + n) * nat num_skips \<le> B"
  shows "\<exists>s' g'. groups pf n i num_skips sw data s g = (Inr s', g')"
  using inv room
proof (induction n arbitrary: i s g)
  case 0
  then show ?case by simp
next
  case (Suc n)
  from Suc.prems(2) have room1: "Suc i * nat num_skips \<le> B"
    by (metis add_Suc_right le_add1 mult_le_mono1 order_trans Suc_le_mono le_add1)
  from group_body_total [OF ns span Suc.prems(1) room1 range mem, of g]
  obtain s1 g1 where b: "group_body pf i num_skips sw data s g = (Inr s1, g1)" by blast
  from group_body_Inr [OF span Suc.prems(1) b]
  have inv1: "window_inv span data B (Suc i) s1" by blast
  from Suc.prems(2) have room2: "(Suc i + n) * nat num_skips \<le> B" by simp
  from Suc.IH [OF inv1 room2, of g1]
  obtain s' g' where "groups pf n (Suc i) num_skips sw data s1 g1 = (Inr s', g')" by blast
  with b show ?case by simp
qed

lemma groups_error:
  "groups pf n i num_skips sw data s g = (Inl e, g') \<Longrightarrow> e \<noteq> AssertionError"
proof (induction n arbitrary: i s g)
  case 0
  then show ?case by simp
next
  case (Suc n)
  obtain r g1 where b: "group_body pf i num_skips sw data s g = (r, g1)"
    by (cases "group_body pf i num_skips sw data s g")
  show ?case
  proof (cases r)
    case (Inl e1)
    with b Suc.prems have "e = e1" by simp
    with b Inl show ?thesis using group_body_error by blast
  next
    case (Inr s1)
    with b Suc.prems have "groups pf n (Suc i) num_skips sw data s1 g1 = (Inl e, g')" by simp
    then show ?thesis by (rule Suc.IH)
  qed
qed

subsection \<open>A whole call\<close>

lemma initial_window_inv:
  assumes "span \<le> length data"
  shows "window_inv span data B 0
     \<lparr>batch = map ub [0..<B], labels = map (\<lambda>k. [ul k]) [0..<B],
      buffer = deque_extend span [] (take span data), data_index = span\<rparr>"
proof -
  have "deque_extend span [] (take span data) = take span data"
    by (rule window_refill) (simp_all add: assms)
  then show ?thesis by (simp add: window_inv_def)
qed

lemma groups_count:
  assumes "0 < num_skips" "0 \<le> batch_size" "batch_size mod num_skips = 0"
  shows "nat (batch_size div num_skips) * nat num_skips = nat batch_size"
proof -
  have "batch_size div num_skips * num_skips = batch_size"
    using assms(3) by (simp add: mod_0_imp_dvd)
  moreover have "0 \<le> batch_size div num_skips"
    using assms(1,2) by (simp add: pos_imp_zdiv_nonneg_iff)
  ultimately show ?thesis
    by (metis nat_mult_distrib)
qed


lemma generate_batch_unfold:
  assumes "num_skips \<noteq> 0" "batch_size mod num_skips = 0" "num_skips \<le> 2 * skip_window"
    "ndarray_limit pf batch_size = None" "0 \<le> batch_size"
    "deque_limit pf (2 * skip_window + 1) = None" "0 \<le> 2 * skip_window + 1"
  shows "generate_batch pf g ub ul batch_size num_skips skip_window data =
     (case groups pf (nat (batch_size div num_skips)) 0 num_skips (nat skip_window) data
        \<lparr>batch = map ub [0..<nat batch_size],
         labels = map (\<lambda>k. [ul k]) [0..<nat batch_size],
         buffer = deque_extend (nat (2 * skip_window + 1)) [] (take (nat (2 * skip_window + 1)) data),
         data_index = nat (2 * skip_window + 1)\<rparr> g of
        (Inl e, g') \<Rightarrow> (Inl e, g')
      | (Inr s, g') \<Rightarrow>
          if length data = 0 then (Inl ZeroDivisionError, g')
          else (Inr (batch s, labels s), g'))"
  unfolding generate_batch_def Let_def using assms by (simp add: not_less)

lemma generate_batch_Inr_guards:
  assumes "generate_batch pf g ub ul batch_size num_skips skip_window data = (Inr (b, l), g')"
  shows "num_skips \<noteq> 0" "batch_size mod num_skips = 0" "num_skips \<le> 2 * skip_window"
    "ndarray_limit pf batch_size = None" "0 \<le> batch_size"
    "deque_limit pf (2 * skip_window + 1) = None" "0 \<le> 2 * skip_window + 1"
  using assms
  by (auto simp: generate_batch_def Let_def split: if_splits option.splits)

lemma span_nat:
  "0 \<le> skip_window \<Longrightarrow> nat (2 * skip_window + 1) = 2 * nat skip_window + 1"
  by linarith


lemma generate_batch_Inr:
  assumes pos: "0 < num_skips"
    and long: "2 * skip_window + 1 \<le> int (length data)"
    and run: "generate_batch pf g ub ul batch_size num_skips skip_window data = (Inr (b, l), g')"
  shows "length b = nat batch_size \<and> length l = nat batch_size
      \<and> (\<forall>i j. i < nat (batch_size div num_skips) \<and> j < nat num_skips \<longrightarrow>
            store_int32 pf
              (data ! (i mod (length data - nat (2 * skip_window + 1) + 1) + nat skip_window))
              = Inr (b ! (i * nat num_skips + j))
            \<and> (\<exists>p < nat (2 * skip_window + 1). p \<noteq> nat skip_window \<and>
                 (\<exists>v. store_int32 pf
                        (data ! (i mod (length data - nat (2 * skip_window + 1) + 1) + p)) = Inr v
                      \<and> l ! (i * nat num_skips + j) = [v])))"
proof -
  define sw where "sw = nat skip_window"
  define span where "span = nat (2 * skip_window + 1)"
  define B where "B = nat batch_size"
  define n where "n = nat (batch_size div num_skips)"
  define s0 where "s0 = \<lparr>batch = map ub [0..<B], labels = map (\<lambda>k. [ul k]) [0..<B],
              buffer = deque_extend span [] (take span data), data_index = span\<rparr>"
  note gd = generate_batch_Inr_guards [OF run]
  from pos gd(3) have sw0: "0 \<le> skip_window" by linarith
  have span: "span = 2 * sw + 1" unfolding span_def sw_def using sw0 by (rule span_nat)
  have span_le: "span \<le> length data" unfolding span_def using long by linarith
  have inv0: "window_inv span data B 0 s0"
    unfolding s0_def using span_le by (rule initial_window_inv)
  have u: "generate_batch pf g ub ul batch_size num_skips skip_window data =
     (case groups pf n 0 num_skips sw data s0 g of
        (Inl e, g') \<Rightarrow> (Inl e, g')
      | (Inr s, g') \<Rightarrow>
          if length data = 0 then (Inl ZeroDivisionError, g')
          else (Inr (batch s, labels s), g'))"
    unfolding n_def sw_def s0_def span_def B_def
    using gd by (rule generate_batch_unfold)
  from run u obtain s' where r: "groups pf n 0 num_skips sw data s0 g = (Inr s', g')"
    and res: "b = batch s'" "l = labels s'"
    by (auto split: prod.splits sum.splits if_splits)
  from groups_Inr [OF span span_le inv0 r]
  have g: "window_inv span data B (0 + n) s'"
      "\<forall>i' j. 0 \<le> i' \<and> i' < 0 + n \<and> j < nat num_skips \<longrightarrow>
            store_int32 pf (data ! (i' mod (length data - span + 1) + sw))
              = Inr (batch s' ! (i' * nat num_skips + j))
            \<and> (\<exists>p < span. p \<noteq> sw \<and>
                 (\<exists>v. store_int32 pf (data ! (i' mod (length data - span + 1) + p)) = Inr v
                      \<and> labels s' ! (i' * nat num_skips + j) = [v]))"
    by blast+
  from g(1) have lens: "length b = B" "length l = B"
    by (simp_all add: window_inv_def res)
  have pairs: "\<forall>i j. i < n \<and> j < nat num_skips \<longrightarrow>
            store_int32 pf (data ! (i mod (length data - span + 1) + sw))
              = Inr (b ! (i * nat num_skips + j))
            \<and> (\<exists>p < span. p \<noteq> sw \<and>
                 (\<exists>v. store_int32 pf (data ! (i mod (length data - span + 1) + p)) = Inr v
                      \<and> l ! (i * nat num_skips + j) = [v]))"
    using g(2) by (simp add: res)
  from lens pairs show ?thesis unfolding B_def n_def span_def sw_def by blast
qed

lemma generate_batch_valid:
  assumes pos: "0 < num_skips" "0 \<le> batch_size"
    and valid: "batch_size mod num_skips = 0" "num_skips \<le> 2 * skip_window"
      "2 * skip_window + 1 \<le> int (length data)"
    and range: "\<forall>x \<in> set data. in_int32 x"
    and grants: "ndarray_limit pf batch_size = None" "deque_limit pf (2 * skip_window + 1) = None"
      "list_limit pf (nat (2 * skip_window)) = None"
  shows "\<exists>b l g'. generate_batch pf g ub ul batch_size num_skips skip_window data
           = (Inr (b, l), g')"
proof -
  define sw where "sw = nat skip_window"
  define span where "span = nat (2 * skip_window + 1)"
  define B where "B = nat batch_size"
  define n where "n = nat (batch_size div num_skips)"
  define s0 where "s0 = \<lparr>batch = map ub [0..<B], labels = map (\<lambda>k. [ul k]) [0..<B],
              buffer = deque_extend span [] (take span data), data_index = span\<rparr>"
  from pos(1) valid(2) have sw0: "0 \<le> skip_window" by linarith
  then have ns': "num_skips \<le> 2 * int sw" using valid(2) unfolding sw_def by linarith
  have span: "span = 2 * sw + 1" unfolding span_def sw_def using sw0 by (rule span_nat)
  have span_le: "span \<le> length data" unfolding span_def using valid(3) by linarith
  have mem: "list_limit pf (2 * sw) = None"
    using grants(3) sw0 unfolding sw_def by (simp add: nat_mult_distrib)
  have inv0: "window_inv span data B 0 s0"
    unfolding s0_def using span_le by (rule initial_window_inv)
  have "n * nat num_skips = B"
    unfolding n_def B_def using pos valid(1) by (rule groups_count)
  then have room: "(0 + n) * nat num_skips \<le> B" by simp
  from groups_total [OF pos(1) ns' span span_le range mem inv0 room, of g]
  obtain s' g' where r: "groups pf n 0 num_skips sw data s0 g = (Inr s', g')" by blast
  have ne: "length data \<noteq> 0" using span span_le by linarith
  have g0: "num_skips \<noteq> 0" "0 \<le> 2 * skip_window + 1" using pos(1) sw0 by linarith+
  have "generate_batch pf g ub ul batch_size num_skips skip_window data =
     (case groups pf n 0 num_skips sw data s0 g of
        (Inl e, g') \<Rightarrow> (Inl e, g')
      | (Inr s, g') \<Rightarrow>
          if length data = 0 then (Inl ZeroDivisionError, g')
          else (Inr (batch s, labels s), g'))"
    unfolding n_def sw_def s0_def span_def B_def
    using g0(1) valid(1,2) grants(1) pos(2) grants(2) g0(2) by (rule generate_batch_unfold)
  then have "generate_batch pf g ub ul batch_size num_skips skip_window data
      = (Inr (batch s', labels s'), g')"
    using ne by (simp add: r)
  then show ?thesis by blast
qed

subsection \<open>The emitted pairs\<close>

text \<open>
  C1 (as amended). Let a call of \<open>generate_batch\<close> have \<open>batch_size\<close> divisible by
  \<open>num_skips\<close>, \<open>num_skips \<le> 2 * skip_window\<close>, at least
  \<open>span = 2 * skip_window + 1\<close> tokens of data and every token id of \<open>data\<close> in the
  range of \<open>int32\<close>, and let it return the arrays \<open>b\<close> and \<open>l\<close>, on whatever
  platform and whatever the random source \<open>g\<close> draws. The pair that group \<open>i\<close> emits
  as its \<open>j\<close>-th, at index \<open>k = i * num_skips + j\<close>, has as \<open>b[k]\<close> the centre token
  of the window of that group, which starts at \<open>i mod (len(data) - span + 1)\<close> in
  \<open>data\<close>, and as \<open>l[k]\<close> the token at a position \<open>p\<close> of the same window with
  \<open>p < span\<close> and \<open>p\<close> not the centre. (By \<open>generate_batch_valid\<close> such a call does
  return when \<open>num_skips\<close> is positive, \<open>batch_size\<close> is not negative and the
  platform takes the sizes.)
\<close>

theorem generate_batch_pairs:
  assumes "batch_size mod num_skips = 0" "num_skips \<le> 2 * skip_window"
      "2 * skip_window + 1 \<le> int (length data)"
    and "\<forall>x \<in> set data. in_int32 x"
    and "generate_batch pf g ub ul batch_size num_skips skip_window data = (Inr (b, l), g')"
    and "i < nat (batch_size div num_skips)" "j < nat num_skips"
  shows "b ! (i * nat num_skips + j)
           = data ! (i mod (length data - nat (2 * skip_window + 1) + 1) + nat skip_window)
      \<and> (\<exists>p < nat (2 * skip_window + 1). p \<noteq> nat skip_window \<and>
            l ! (i * nat num_skips + j)
              = [data ! (i mod (length data - nat (2 * skip_window + 1) + 1) + p)])"
proof -
  let ?t = "i mod (length data - nat (2 * skip_window + 1) + 1)"
  let ?k = "i * nat num_skips + j"
  from assms(7) have ns: "0 < num_skips" by linarith
  from ns assms(2) have sw0: "0 \<le> skip_window" by linarith
  have le: "?t + nat (2 * skip_window + 1) \<le> length data"
    using assms(3) by (intro window_start_bound) linarith
  have inr: "in_int32 (data ! (?t + p))" if "p < nat (2 * skip_window + 1)" for p
  proof -
    from that le have "?t + p < length data" by linarith
    then have "data ! (?t + p) \<in> set data" by simp
    with assms(4) show ?thesis by blast
  qed
  from generate_batch_Inr [OF ns assms(3,5)] assms(6,7)
  have st: "store_int32 pf (data ! (?t + nat skip_window)) = Inr (b ! ?k)"
    and "\<exists>p < nat (2 * skip_window + 1). p \<noteq> nat skip_window \<and>
          (\<exists>v. store_int32 pf (data ! (?t + p)) = Inr v \<and> l ! ?k = [v])"
    by blast+
  then obtain p v where p: "p < nat (2 * skip_window + 1)" "p \<noteq> nat skip_window"
      "store_int32 pf (data ! (?t + p)) = Inr v" "l ! ?k = [v]"
    by blast
  have "nat skip_window < nat (2 * skip_window + 1)" using sw0 by linarith
  from inr [OF this] st have one: "b ! ?k = data ! (?t + nat skip_window)"
    by (simp add: store_int32_in_range)
  from inr [OF p(1)] p(3) have "v = data ! (?t + p)"
    by (simp add: store_int32_in_range)
  with p have "\<exists>p < nat (2 * skip_window + 1). p \<noteq> nat skip_window \<and>
      l ! ?k = [data ! (?t + p)]"
    by blast
  with one show ?thesis by blast
qed

theorem generate_batch_pairs_witness:
  "(2::int) mod 2 = 0 \<and> (2::int) \<le> 2 * 1 \<and> 2 * 1 + 1 \<le> int (length [1, 2, 3, 4, 5 :: int])
   \<and> list_all in_int32 [1, 2, 3, 4, 5]
   \<and> fst (generate_batch numpy1 (\<lambda>n. n) (\<lambda>k. 0) (\<lambda>k. 0) 2 2 1 [1, 2, 3, 4, 5])
        = Inr ([2, 2], [[1], [3]])
   \<and> (0::nat) < nat (2 div 2) \<and> (1::nat) < nat 2
   \<and> [2, 2 :: int] ! (0 * nat 2 + 1)
        = [1, 2, 3, 4, 5] ! (0 mod (length [1, 2, 3, 4, 5 :: int] - nat (2 * 1 + 1) + 1) + nat 1)
   \<and> (\<exists>p < nat (2 * 1 + 1). p \<noteq> nat 1 \<and>
        [[1], [3 :: int]] ! (0 * nat 2 + 1)
          = [[1, 2, 3, 4, 5] ! (0 mod (length [1, 2, 3, 4, 5 :: int] - nat (2 * 1 + 1) + 1) + p)])"
proof -
  have run: "fst (generate_batch numpy1 (\<lambda>n. n) (\<lambda>k. 0) (\<lambda>k. 0) 2 2 1 [1, 2, 3, 4, 5])
        = Inr ([2, 2], [[1], [3]])"
    by code_simp
  then have run': "generate_batch numpy1 (\<lambda>n. n) (\<lambda>k. 0) (\<lambda>k. 0) 2 2 1 [1, 2, 3, 4, 5]
        = (Inr ([2, 2], [[1], [3]]),
           snd (generate_batch numpy1 (\<lambda>n. n) (\<lambda>k. 0) (\<lambda>k. 0) 2 2 1 [1, 2, 3, 4, 5]))"
    by (metis prod.collapse)
  have h: "(2::int) mod 2 = 0" "(2::int) \<le> 2 * 1"
      "2 * 1 + 1 \<le> int (length [1, 2, 3, 4, 5 :: int])"
      "(0::nat) < nat (2 div 2)" "(1::nat) < nat 2"
    by simp_all
  have r: "list_all in_int32 [1, 2, 3, 4, 5]" by (simp add: in_int32_def)
  then have r': "\<forall>x \<in> set [1, 2, 3, 4, 5]. in_int32 x" by (simp only: list_all_iff)
  from generate_batch_pairs [OF h(1,2,3) r' run' h(4,5)] run h r show ?thesis by blast
qed

text \<open>
  C1 as stated, for any data, fails on numpy 1 at \<open>data = [1, 2147483648, 3]\<close> with
  \<open>batch_size = 2\<close>, \<open>num_skips = 2\<close>, \<open>skip_window = 1\<close>: the centre token is
  \<open>2147483648\<close>, and the array of dtype \<open>int32\<close> holds \<open>-2147483648\<close>.
\<close>

theorem generate_batch_int32_wraps:
  "(2::int) mod 2 = 0 \<and> (2::int) \<le> 2 * 1 \<and> 2 * 1 + 1 \<le> int (length [1, 2147483648, 3 :: int])
   \<and> fst (generate_batch numpy1 (\<lambda>n. n) (\<lambda>k. 0) (\<lambda>k. 0) 2 2 1 [1, 2147483648, 3])
        = Inr ([- 2147483648, - 2147483648], [[1], [3]])
   \<and> [1, 2147483648, 3 :: int] ! (0 mod (length [1, 2147483648, 3 :: int] - nat (2 * 1 + 1) + 1) + nat 1)
        = 2147483648"
  by code_simp

text \<open>On numpy 2 the same call raises \<open>OverflowError\<close> at the first store.\<close>

lemma generate_batch_int32_raises:
  "fst (generate_batch numpy2 (\<lambda>n. n) (\<lambda>k. 0) (\<lambda>k. 0) 2 2 1 [1, 2147483648, 3])
     = Inl OverflowError"
  by code_simp

subsection \<open>The assertions\<close>

lemma generate_batch_assertion:
  assumes "num_skips \<noteq> 0"
  shows "fst (generate_batch pf g ub ul batch_size num_skips skip_window data) = Inl AssertionError
     \<longleftrightarrow> batch_size mod num_skips \<noteq> 0 \<or> 2 * skip_window < num_skips"
proof (cases "batch_size mod num_skips \<noteq> 0 \<or> 2 * skip_window < num_skips")
  case True
  with assms show ?thesis by (auto simp: generate_batch_def)
next
  case False
  then have ok: "batch_size mod num_skips = 0" "num_skips \<le> 2 * skip_window" by simp_all
  have r: "raised le \<noteq> AssertionError" for le by (cases le) simp_all
  have "fst (generate_batch pf g ub ul batch_size num_skips skip_window data) \<noteq> Inl AssertionError"
  proof (cases "ndarray_limit pf batch_size = None \<and> 0 \<le> batch_size
      \<and> deque_limit pf (2 * skip_window + 1) = None \<and> 0 \<le> 2 * skip_window + 1")
    case False
    with assms ok r show ?thesis
      by (auto simp: generate_batch_def Let_def split: option.splits)
  next
    case True
    then have nn: "ndarray_limit pf batch_size = None" "0 \<le> batch_size"
        "deque_limit pf (2 * skip_window + 1) = None" "0 \<le> 2 * skip_window + 1"
      by simp_all
    define r where "r = groups pf (nat (batch_size div num_skips)) 0 num_skips (nat skip_window) data
        \<lparr>batch = map ub [0..<nat batch_size],
         labels = map (\<lambda>k. [ul k]) [0..<nat batch_size],
         buffer = deque_extend (nat (2 * skip_window + 1)) [] (take (nat (2 * skip_window + 1)) data),
         data_index = nat (2 * skip_window + 1)\<rparr> g"
    have u: "generate_batch pf g ub ul batch_size num_skips skip_window data =
       (case r of
          (Inl e, g') \<Rightarrow> (Inl e, g')
        | (Inr s, g') \<Rightarrow>
            if length data = 0 then (Inl ZeroDivisionError, g')
            else (Inr (batch s, labels s), g'))"
      unfolding r_def using assms ok nn by (rule generate_batch_unfold)
    obtain x g1 where r: "r = (x, g1)" by (cases r)
    show ?thesis
    proof (cases x)
      case (Inl e)
      with r have "e \<noteq> AssertionError"
        unfolding r_def using groups_error by blast
      with u r Inl show ?thesis by auto
    next
      case (Inr s)
      with u r show ?thesis by simp
    qed
  qed
  with False show ?thesis by simp
qed

text \<open>
  C7 (as amended). For \<open>num_skips \<noteq> 0\<close>, \<open>generate_batch\<close> fails with
  \<open>AssertionError\<close> if and only if \<open>batch_size % num_skips != 0\<close> or
  \<open>num_skips > 2 * skip_window\<close>, whatever the data; for \<open>num_skips = 0\<close> the first
  assertion divides by zero and the call fails with \<open>ZeroDivisionError\<close>.
\<close>

theorem generate_batch_assertion_iff:
  "(num_skips \<noteq> 0 \<longrightarrow>
      (fst (generate_batch pf g ub ul batch_size num_skips skip_window data) = Inl AssertionError
        \<longleftrightarrow> batch_size mod num_skips \<noteq> 0 \<or> 2 * skip_window < num_skips))
   \<and> (num_skips = 0 \<longrightarrow>
      fst (generate_batch pf g ub ul batch_size num_skips skip_window data) = Inl ZeroDivisionError)"
  using generate_batch_assertion [of num_skips pf g ub ul batch_size skip_window data]
  by (simp add: generate_batch_def)


theorem generate_batch_assertion_iff_witness:
  "(3::int) \<noteq> 0
   \<and> fst (generate_batch numpy1 (\<lambda>n. n) (\<lambda>k. 0) (\<lambda>k. 0) 4 3 2 [1, 2, 3, 4, 5]) = Inl AssertionError
   \<and> (4::int) mod 3 = 1
   \<and> (0::int) = 0
   \<and> fst (generate_batch numpy1 (\<lambda>n. n) (\<lambda>k. 0) (\<lambda>k. 0) 4 0 2 [1, 2, 3, 4, 5]) = Inl ZeroDivisionError"
  using generate_batch_assertion_iff [of 3 numpy1 "\<lambda>n. n" "\<lambda>k. 0" "\<lambda>k. 0" 4 2 "[1, 2, 3, 4, 5]"]
    generate_batch_assertion_iff [of 0 numpy1 "\<lambda>n. n" "\<lambda>k. 0" "\<lambda>k. 0" 4 2 "[1, 2, 3, 4, 5]"]
  by simp

text \<open>
  C7 as stated fails at \<open>batch_size = 4\<close>, \<open>num_skips = 0\<close>, \<open>skip_window = -1\<close>:
  \<open>num_skips > 2 * skip_window\<close> holds and the data are longer than the span, yet the
  error is \<open>ZeroDivisionError\<close>, not an assertion failure.
\<close>

theorem generate_batch_zero_num_skips:
  "\<not> (fst (generate_batch numpy1 (\<lambda>n. n) (\<lambda>k. 0) (\<lambda>k. 0) 4 0 (- 1) [1, 2, 3]) = Inl AssertionError
       \<longleftrightarrow> (4::int) mod 0 \<noteq> 0 \<or> 2 * (- 1) < (0::int))
   \<and> 2 * (- 1) + 1 \<le> int (length [1, 2, 3 :: int])
   \<and> fst (generate_batch numpy1 (\<lambda>n. n) (\<lambda>k. 0) (\<lambda>k. 0) 4 0 (- 1) [1, 2, 3]) = Inl ZeroDivisionError"
  by (simp add: generate_batch_def)

subsection \<open>Data shorter than the span\<close>

lemma initial_buffer: "deque_extend span [] (take span data) = take span data"
  using deque_extend_drop [of "[]" span "take span data"] by simp

lemma generate_batch_short_data:
  assumes "1 \<le> batch_size" "1 \<le> num_skips"
    and "batch_size mod num_skips = 0" "num_skips \<le> 2 * skip_window"
    and "int (length data) < 2 * skip_window + 1"
    and "\<forall>x \<in> set data. in_int32 x"
    and "ndarray_limit pf batch_size = None" "deque_limit pf (2 * skip_window + 1) = None"
      "list_limit pf (nat (2 * skip_window)) = None"
  shows "fst (generate_batch pf g ub ul batch_size num_skips skip_window data) = Inl IndexError"
proof -
  define s0 where "s0 = \<lparr>batch = map ub [0..<nat batch_size],
         labels = map (\<lambda>k. [ul k]) [0..<nat batch_size],
         buffer = deque_extend (nat (2 * skip_window + 1)) [] (take (nat (2 * skip_window + 1)) data),
         data_index = nat (2 * skip_window + 1)\<rparr>"
  define n where "n = nat (batch_size div num_skips)"
  have g0: "num_skips \<noteq> 0" "0 \<le> batch_size" "0 \<le> 2 * skip_window + 1" "0 < num_skips"
      "0 \<le> skip_window"
    using assms(1,2,4) by linarith+
  have u: "generate_batch pf g ub ul batch_size num_skips skip_window data =
       (case groups pf n 0 num_skips (nat skip_window) data s0 g of
          (Inl e, g') \<Rightarrow> (Inl e, g')
        | (Inr s, g') \<Rightarrow>
            if length data = 0 then (Inl ZeroDivisionError, g')
            else (Inr (batch s, labels s), g'))"
    unfolding s0_def n_def using g0(1) assms(3,4,7) g0(2) assms(8) g0(3)
    by (rule generate_batch_unfold)
  have "n * nat num_skips = nat batch_size"
    unfolding n_def using g0(4,2) assms(3) by (rule groups_count)
  with assms(1) have "n \<noteq> 0" by (cases n) simp_all
  then obtain n' where n: "n = Suc n'" by (cases n) simp_all
  have ns: "num_skips \<le> 2 * int (nat skip_window)" using assms(2,4) by linarith
  have short: "length data < data_index s0" unfolding s0_def using assms(5) by simp
  have "set (buffer s0) \<subseteq> set data"
    unfolding s0_def using set_take_subset [of "nat (2 * skip_window + 1)" data]
    by (simp add: initial_buffer)
  with assms(6) have range: "\<forall>x \<in> set (buffer s0). in_int32 x" by blast
  have mem: "list_limit pf (2 * nat skip_window) = None"
    using assms(9) g0(5) by (simp add: nat_mult_distrib)
  from group_body_short_data [OF g0(4) ns short range mem, of 0 g]
  obtain g' where
      "group_body pf 0 num_skips (nat skip_window) data s0 g = (Inl IndexError, g')"
    by blast
  then have "groups pf n 0 num_skips (nat skip_window) data s0 g = (Inl IndexError, g')"
    by (simp add: n)
  with u show ?thesis by simp
qed

text \<open>
  C8 (as amended). When \<open>data\<close> is shorter than \<open>span = 2 * skip_window + 1\<close>, the
  arguments pass both assertions, \<open>batch_size \<ge> 1\<close> and \<open>num_skips \<ge> 1\<close> (so
  that at least one group is generated), every token id of \<open>data\<close> is in the range of
  \<open>int32\<close> and the platform takes the sizes of the arrays, of the deque and of the
  list of context positions, \<open>generate_batch\<close> fails with \<open>IndexError\<close> for every
  state of the random source.
\<close>

theorem generate_batch_index_error:
  assumes "1 \<le> batch_size" "1 \<le> num_skips"
    and "batch_size mod num_skips = 0" "num_skips \<le> 2 * skip_window"
    and "int (length data) < 2 * skip_window + 1"
    and "\<forall>x \<in> set data. in_int32 x"
    and "ndarray_limit pf batch_size = None" "deque_limit pf (2 * skip_window + 1) = None"
      "list_limit pf (nat (2 * skip_window)) = None"
  shows "\<forall>g. fst (generate_batch pf g ub ul batch_size num_skips skip_window data) = Inl IndexError"
  using assms by (simp add: generate_batch_short_data)


theorem generate_batch_index_error_witness:
  "(1::int) \<le> 2 \<and> (2::int) mod 2 = 0 \<and> (2::int) \<le> 2 * 1
   \<and> int (length [7, 8 :: int]) < 2 * 1 + 1
   \<and> list_all in_int32 [7, 8]
   \<and> ndarray_limit numpy1 2 = None \<and> deque_limit numpy1 (2 * 1 + 1) = None
   \<and> list_limit numpy1 (nat (2 * 1)) = None
   \<and> (\<forall>g. fst (generate_batch numpy1 g (\<lambda>k. 0) (\<lambda>k. 0) 2 2 1 [7, 8]) = Inl IndexError)"
proof -
  have h: "(1::int) \<le> 2" "(2::int) mod 2 = 0" "(2::int) \<le> 2 * 1"
      "int (length [7, 8 :: int]) < 2 * 1 + 1"
    by simp_all
  have r: "list_all in_int32 [7, 8]" by (simp add: in_int32_def)
  then have r': "\<forall>x \<in> set [7, 8]. in_int32 x" by (simp only: list_all_iff)
  have m: "ndarray_limit numpy1 2 = None" "deque_limit numpy1 (2 * 1 + 1) = None"
      "list_limit numpy1 (nat (2 * 1)) = None"
    by (simp_all add: numpy1_def size_limit_def)
  from generate_batch_index_error [OF h(1) h(1) h(2) h(3) h(4) r' m] h r m
  show ?thesis by blast
qed


text \<open>
  C8 as stated fails at \<open>batch_size = 0\<close>: no group is generated, nothing is indexed
  and the call returns two empty arrays.
\<close>

theorem generate_batch_no_group_no_error:
  "(0::int) mod 1 = 0 \<and> (1::int) \<le> 2 * 1 \<and> int (length [7 :: int]) < 2 * 1 + 1
   \<and> fst (generate_batch numpy1 (\<lambda>n. n) (\<lambda>k. 0) (\<lambda>k. 0) 0 1 1 [7]) = Inr ([], [])"
  by code_simp

subsection \<open>Two calls in a row\<close>

lemma generate_batch_short_Inr:
  assumes "0 < num_skips" "int (length data) < 2 * skip_window + 1"
    and "generate_batch pf g ub ul batch_size num_skips skip_window data = (Inr (b, l), g')"
  shows "b = []"
proof -
  define s0 where "s0 = \<lparr>batch = map ub [0..<nat batch_size],
         labels = map (\<lambda>k. [ul k]) [0..<nat batch_size],
         buffer = deque_extend (nat (2 * skip_window + 1)) [] (take (nat (2 * skip_window + 1)) data),
         data_index = nat (2 * skip_window + 1)\<rparr>"
  define n where "n = nat (batch_size div num_skips)"
  note gd = generate_batch_Inr_guards [OF assms(3)]
  have u: "generate_batch pf g ub ul batch_size num_skips skip_window data =
       (case groups pf n 0 num_skips (nat skip_window) data s0 g of
          (Inl e, g') \<Rightarrow> (Inl e, g')
        | (Inr s, g') \<Rightarrow>
            if length data = 0 then (Inl ZeroDivisionError, g')
            else (Inr (batch s, labels s), g'))"
    unfolding s0_def n_def using gd by (rule generate_batch_unfold)
  have short: "length data < data_index s0" unfolding s0_def using assms(2) by simp
  have "n = 0"
  proof (cases n)
    case 0
    then show ?thesis .
  next
    case (Suc n')
    from group_body_short_data_fails [OF short, of pf 0 num_skips "nat skip_window" g]
    obtain e g1 where "group_body pf 0 num_skips (nat skip_window) data s0 g = (Inl e, g1)"
      by blast
    then have "groups pf n 0 num_skips (nat skip_window) data s0 g = (Inl e, g1)"
      by (simp add: Suc)
    with u assms(3) show ?thesis by simp
  qed
  moreover have "n * nat num_skips = nat batch_size"
    unfolding n_def using assms(1) gd(5,2) by (rule groups_count)
  ultimately have z: "nat batch_size = 0" by simp
  from u assms(3) \<open>n = 0\<close> have "b = batch s0" by (auto split: if_splits)
  with z show ?thesis by (simp add: s0_def)
qed

text \<open>
  C4 (as amended). Take two calls of \<open>generate_batch\<close> with the same \<open>batch_size\<close>,
  \<open>num_skips > 0\<close>, \<open>skip_window\<close> and \<open>data\<close> on the same platform, the second
  starting from the state \<open>g1\<close> in which the first left the random source, that both
  return. They return the same \<open>batch\<close> array: each call starts its window at index
  \<open>0\<close> of \<open>data\<close>, so the targets depend on the arguments only. (The labels depend
  on the positions drawn and can coincide as well.)
\<close>

theorem generate_batch_two_calls:
  assumes "0 < num_skips"
    and "generate_batch pf g0 ub ul batch_size num_skips skip_window data = (Inr (b1, l1), g1)"
    and "generate_batch pf g1 ub' ul' batch_size num_skips skip_window data = (Inr (b2, l2), g2)"
  shows "b1 = b2"
proof (cases "2 * skip_window + 1 \<le> int (length data)")
  case True
  note r1 = generate_batch_Inr [OF assms(1) True assms(2)]
  note r2 = generate_batch_Inr [OF assms(1) True assms(3)]
  note gd = generate_batch_Inr_guards [OF assms(2)]
  have cnt: "nat (batch_size div num_skips) * nat num_skips = nat batch_size"
    using assms(1) gd(5,2) by (rule groups_count)
  have ns: "0 < nat num_skips" using assms(1) by simp
  show ?thesis
  proof (rule nth_equalityI)
    show "length b1 = length b2" using r1 r2 by simp
  next
    fix k assume "k < length b1"
    with r1 have k: "k < nat batch_size" by simp
    with cnt have "k < nat (batch_size div num_skips) * nat num_skips" by simp
    then have i: "k div nat num_skips < nat (batch_size div num_skips)"
      using ns by (simp add: less_mult_imp_div_less)
    have j: "k mod nat num_skips < nat num_skips" using ns by simp
    let ?x = "data ! ((k div nat num_skips) mod (length data - nat (2 * skip_window + 1) + 1)
                  + nat skip_window)"
    from r1 i j have "store_int32 pf ?x
        = Inr (b1 ! (k div nat num_skips * nat num_skips + k mod nat num_skips))"
      by blast
    moreover from r2 i j have "store_int32 pf ?x
        = Inr (b2 ! (k div nat num_skips * nat num_skips + k mod nat num_skips))"
      by blast
    ultimately show "b1 ! k = b2 ! k" by simp
  qed
next
  case False
  then have short: "int (length data) < 2 * skip_window + 1" by linarith
  from generate_batch_short_Inr [OF assms(1) short assms(2)]
    generate_batch_short_Inr [OF assms(1) short assms(3)]
  show ?thesis by simp
qed


theorem generate_batch_two_calls_witness:
  "(0::int) < 2
   \<and> fst (generate_batch numpy1 (\<lambda>n. n div 4) (\<lambda>k. 0) (\<lambda>k. 0) 4 2 1 [1, 2, 3, 4, 5])
       = Inr ([2, 2, 3, 3], [[1], [3], [2], [4]])
   \<and> fst (generate_batch numpy1
            (snd (generate_batch numpy1 (\<lambda>n. n div 4) (\<lambda>k. 0) (\<lambda>k. 0) 4 2 1 [1, 2, 3, 4, 5]))
            (\<lambda>k. 7) (\<lambda>k. 7) 4 2 1 [1, 2, 3, 4, 5])
       = Inr ([2, 2, 3, 3], [[3], [1], [4], [2]])
   \<and> [2, 2, 3, 3] = [2, 2, 3, 3 :: int]"
proof -
  let ?g1 = "snd (generate_batch numpy1 (\<lambda>n. n div 4) (\<lambda>k. 0) (\<lambda>k. 0) 4 2 1 [1, 2, 3, 4, 5])"
  have r1: "fst (generate_batch numpy1 (\<lambda>n. n div 4) (\<lambda>k. 0) (\<lambda>k. 0) 4 2 1 [1, 2, 3, 4, 5])
       = Inr ([2, 2, 3, 3], [[1], [3], [2], [4]])"
    by code_simp
  have r2: "fst (generate_batch numpy1 ?g1 (\<lambda>k. 7) (\<lambda>k. 7) 4 2 1 [1, 2, 3, 4, 5])
       = Inr ([2, 2, 3, 3], [[3], [1], [4], [2]])"
    by code_simp
  from r1 have c1: "generate_batch numpy1 (\<lambda>n. n div 4) (\<lambda>k. 0) (\<lambda>k. 0) 4 2 1 [1, 2, 3, 4, 5]
       = (Inr ([2, 2, 3, 3], [[1], [3], [2], [4]]), ?g1)"
    by (metis prod.collapse)
  from r2 have c2: "generate_batch numpy1 ?g1 (\<lambda>k. 7) (\<lambda>k. 7) 4 2 1 [1, 2, 3, 4, 5]
       = (Inr ([2, 2, 3, 3], [[3], [1], [4], [2]]),
          snd (generate_batch numpy1 ?g1 (\<lambda>k. 7) (\<lambda>k. 7) 4 2 1 [1, 2, 3, 4, 5]))"
    by (metis prod.collapse)
  have h: "(0::int) < 2" by simp
  from generate_batch_two_calls [OF h c1 c2] r1 r2 h show ?thesis by blast
qed


text \<open>
  C4 as stated, that the two results are distinct, fails: with the generator that
  produces \<open>0, 1, 2, \<dots>\<close> two calls in a row return the same arrays.
\<close>

theorem generate_batch_two_calls_same_result:
  "fst (generate_batch numpy1 (\<lambda>n. n) (\<lambda>k. 0) (\<lambda>k. 0) 2 2 1 [1, 2, 3, 4, 5])
     = Inr ([2, 2], [[1], [3]])
   \<and> fst (generate_batch numpy1
            (snd (generate_batch numpy1 (\<lambda>n. n) (\<lambda>k. 0) (\<lambda>k. 0) 2 2 1 [1, 2, 3, 4, 5]))
            (\<lambda>k. 0) (\<lambda>k. 0) 2 2 1 [1, 2, 3, 4, 5])
     = Inr ([2, 2], [[1], [3]])"
  by code_simp

end
